theory Spec2Isabelle
  imports Main "HOL-Library.Word"
begin

section \<open>The vector structure of cvec.h\<close>

text \<open>
  \<^verbatim>\<open>cvec_t(T)\<close> is a struct of seven fields. \<^verbatim>\<open>size_t\<close> is the 64-bit unsigned
  integer of the usual LP64 targets, so every index computation wraps modulo \<open>2 ^ 64\<close>.

  The block \<^verbatim>\<open>__data\<close> points to is owned by the vector alone, so the pointer is
  modelled by what it points to: \<open>None\<close> is \<^verbatim>\<open>NULL\<close>, \<open>Some b\<close> a block of
  \<open>length b\<close> element slots. A slot that was never written is \<open>Junk\<close>.
  \<^verbatim>\<open>__on_free\<close> is a function pointer: the record keeps whether it is set, and every
  operation that may call it returns the list of the arguments it was called with, in
  call order.
\<close>

type_synonym size_t = "64 word"

datatype 'a slot = Junk | Val 'a

text \<open>Undefined behaviour of the C program is a result of its own.\<close>

datatype fault = Undefined

record 'a cvec =
  v_n :: size_t                      \<comment> \<open>\<^verbatim>\<open>__n\<close>, the length\<close>
  v_m :: size_t                      \<comment> \<open>\<^verbatim>\<open>__m\<close>, the capacity\<close>
  v_t :: size_t                      \<comment> \<open>\<^verbatim>\<open>__t\<close>, \<^verbatim>\<open>sizeof(T)\<close>\<close>
  v_data :: "'a slot list option"    \<comment> \<open>\<^verbatim>\<open>__data\<close>\<close>
  v_on_free :: bool                  \<comment> \<open>\<^verbatim>\<open>__on_free\<close> is not \<^verbatim>\<open>NULL\<close>\<close>
  v_e :: int                         \<comment> \<open>\<^verbatim>\<open>__e\<close>\<close>
  v_sentinel :: 'a                   \<comment> \<open>\<^verbatim>\<open>__sentinel\<close>\<close>

definition CVEC_EOK :: int where
  "CVEC_EOK = 0"

definition CVEC_EOOM :: int where
  "CVEC_EOOM = - 1"

section \<open>The C library functions the macros call\<close>

text \<open>
  \<^verbatim>\<open>realloc(p, bytes)\<close>: whether the allocator succeeds is not decided by the program,
  so it is the argument \<open>ok\<close>. On success the new block holds the whole elements that
  fit into \<open>bytes\<close> bytes: the old contents up to the smaller of the two sizes, then
  unwritten slots. On failure the result is \<^verbatim>\<open>NULL\<close>.
\<close>

definition resize :: "nat \<Rightarrow> 'a slot list \<Rightarrow> 'a slot list" where
  "resize k b = take k b @ replicate (k - length b) Junk"

definition realloc :: "bool \<Rightarrow> 'a slot list option \<Rightarrow> size_t \<Rightarrow> size_t \<Rightarrow> 'a slot list option" where
  "realloc ok d t bytes =
     (if ok then Some (resize (unat bytes div unat t) (case d of None \<Rightarrow> [] | Some b \<Rightarrow> b))
      else None)"

text \<open>
  Reading \<^verbatim>\<open>*(data + i)\<close> and writing \<^verbatim>\<open>*(data + i) = x\<close>. Both are undefined through
  \<^verbatim>\<open>NULL\<close> and outside the block; a read of a slot never written yields no element.
\<close>

definition load :: "'a slot list option \<Rightarrow> size_t \<Rightarrow> fault + 'a" where
  "load d i =
     (case d of
        None \<Rightarrow> Inl Undefined
      | Some b \<Rightarrow>
          if unat i < length b
          then (case b ! unat i of Junk \<Rightarrow> Inl Undefined | Val x \<Rightarrow> Inr x)
          else Inl Undefined)"

definition store :: "'a slot list option \<Rightarrow> size_t \<Rightarrow> 'a \<Rightarrow> fault + 'a slot list option" where
  "store d i x =
     (case d of
        None \<Rightarrow> Inl Undefined
      | Some b \<Rightarrow>
          if unat i < length b then Inr (Some (b[unat i := Val x])) else Inl Undefined)"

text \<open>
  \<^verbatim>\<open>memcpy(data + di, data + si, nbytes)\<close> for elements of \<open>t\<close> bytes. The C standard
  makes it undefined when a pointer is \<^verbatim>\<open>NULL\<close> or lies beyond the end of the block,
  when either range leaves the block, and when the two ranges overlap. Otherwise the
  whole elements are copied; a trailing part of an element leaves a slot with no
  element value.
\<close>

definition memcpy ::
  "'a slot list option \<Rightarrow> size_t \<Rightarrow> size_t \<Rightarrow> size_t \<Rightarrow> size_t \<Rightarrow> fault + 'a slot list option" where
  "memcpy d t di si nbytes =
     (case d of
        None \<Rightarrow> Inl Undefined
      | Some b \<Rightarrow>
          let sz = unat t; dst = unat di; src = unat si; k = unat nbytes; c = k div sz in
          if length b < dst \<or> length b < src then Inl Undefined
          else if k = 0 then Inr (Some b)
          else if length b * sz < dst * sz + k \<or> length b * sz < src * sz + k then Inl Undefined
          else if dst * sz < src * sz + k \<and> src * sz < dst * sz + k then Inl Undefined
          else Inr (Some (take dst b @ take c (drop src b) @
                 (if k mod sz = 0 then drop (dst + c) b else Junk # drop (dst + c + 1) b))))"

section \<open>Growth\<close>

text \<open>
  \<^verbatim>\<open>__cvec_maybe_grow\<close> ends in \<^verbatim>\<open>break\<close> when the allocation fails, which leaves the
  \<^verbatim>\<open>do { ... } while (0)\<close> of the macro that called it: the result says whether the
  caller goes on.
\<close>

datatype 'a flow = Break "'a cvec" | Continue "'a cvec"

definition cvec_maybe_grow :: "bool \<Rightarrow> 'a cvec \<Rightarrow> 'a flow" where
  "cvec_maybe_grow ok v =
     (if v_n v = v_m v then
        let m1 = (if v_m v = 0 then 2 else push_bit 1 (v_m v));
            m2 = m1 + 1;
            d = realloc ok (v_data v) (v_t v) (v_t v * m2);
            v1 = v\<lparr>v_m := m2, v_data := d\<rparr>
        in if d = None then Break (v1\<lparr>v_e := CVEC_EOOM\<rparr>) else Continue v1
      else Continue v)"

section \<open>Initialisation, teardown and capacity\<close>

definition cvec_init :: "size_t \<Rightarrow> 'a \<Rightarrow> bool \<Rightarrow> 'a cvec" where
  "cvec_init sizeof_T sentinel_value on_free =
     \<lparr>v_n = 0, v_m = 0, v_t = sizeof_T, v_data = None, v_on_free = on_free,
      v_e = CVEC_EOK, v_sentinel = sentinel_value\<rparr>"

definition cvec_set_on_free :: "'a cvec \<Rightarrow> bool \<Rightarrow> 'a cvec" where
  "cvec_set_on_free v on_free = v\<lparr>v_on_free := on_free\<rparr>"

text \<open>
  \<^verbatim>\<open>for (x = ...; x < stop; ++x) on_free(data[x]);\<close> The calls made so far are \<open>acc\<close>.
\<close>

function destroy_loop :: "'a slot list option \<Rightarrow> size_t \<Rightarrow> size_t \<Rightarrow> 'a list \<Rightarrow> fault + 'a list" where
  "destroy_loop d x stop acc =
     (if x < stop
      then (case load d x of
              Inl f \<Rightarrow> Inl f
            | Inr a \<Rightarrow> destroy_loop d (x + 1) stop (acc @ [a]))
      else Inr acc)"
  by pat_completeness auto
termination
proof (relation "measure (\<lambda>(d, x, stop, acc). unat stop - unat x)")
  show "wf (measure (\<lambda>(d :: 'a slot list option, x :: size_t, stop :: size_t, acc :: 'a list).
          unat stop - unat x))"
    by simp
next
  fix d :: "'a slot list option" and x stop :: size_t and acc :: "'a list" and a :: 'a
  assume "x < stop"
  then have "unat x < unat stop" and "unat (x + 1) = Suc (unat x)"
    by unat_arith+
  then show "((d, x + 1, stop, acc @ [a]), (d, x, stop, acc))
      \<in> measure (\<lambda>(d, x, stop, acc). unat stop - unat x)"
    by simp
qed

declare destroy_loop.simps [simp del]

definition cvec_free :: "'a cvec \<Rightarrow> fault + ('a cvec \<times> 'a list)" where
  "cvec_free v =
     (case (if v_on_free v \<and> v_data v \<noteq> None then destroy_loop (v_data v) 0 (v_n v) []
            else Inr []) of
        Inl f \<Rightarrow> Inl f
      | Inr called \<Rightarrow>
          Inr (v\<lparr>v_data := None, v_n := 0, v_m := 0, v_e := CVEC_EOK\<rparr>, called))"

definition cvec_reserve :: "bool \<Rightarrow> 'a cvec \<Rightarrow> size_t \<Rightarrow> 'a cvec" where
  "cvec_reserve ok v k =
     (let d = realloc ok (v_data v) (v_t v) (v_t v * k);
          v1 = v\<lparr>v_data := d\<rparr>;
          v2 = (if d = None then v1\<lparr>v_e := CVEC_EOOM\<rparr> else v1)
      in v2\<lparr>v_m := k\<rparr>)"

definition cvec_shrink_to_fit :: "bool \<Rightarrow> 'a cvec \<Rightarrow> 'a cvec" where
  "cvec_shrink_to_fit ok v =
     (if v_n v < v_m v then
        let d = realloc ok (v_data v) (v_t v) (v_t v * v_n v);
            v1 = v\<lparr>v_data := d\<rparr>;
            v2 = (if d = None then v1\<lparr>v_e := CVEC_EOOM\<rparr> else v1)
        in v2\<lparr>v_m := v_n v\<rparr>
      else v)"

section \<open>Adding elements\<close>

definition cvec_push_back :: "bool \<Rightarrow> 'a cvec \<Rightarrow> 'a \<Rightarrow> fault + 'a cvec" where
  "cvec_push_back ok v item =
     (case cvec_maybe_grow ok v of
        Break v1 \<Rightarrow> Inr v1
      | Continue v1 \<Rightarrow>
          (case store (v_data v1) (v_n v1) item of
             Inl f \<Rightarrow> Inl f
           | Inr d \<Rightarrow> Inr (v1\<lparr>v_data := d, v_n := v_n v1 + 1\<rparr>)))"

definition cvec_insert :: "bool \<Rightarrow> 'a cvec \<Rightarrow> size_t \<Rightarrow> 'a \<Rightarrow> fault + 'a cvec" where
  "cvec_insert ok v pos item =
     (let p = pos in
      case cvec_maybe_grow ok v of
        Break v1 \<Rightarrow> Inr v1
      | Continue v1 \<Rightarrow>
          (case memcpy (v_data v1) (v_t v1) (p + 1) p (v_t v1 * (v_n v1 - p)) of
             Inl f \<Rightarrow> Inl f
           | Inr d \<Rightarrow>
               (case store d p item of
                  Inl f \<Rightarrow> Inl f
                | Inr d' \<Rightarrow> Inr (v1\<lparr>v_data := d', v_n := v_n v1 + 1\<rparr>))))"

definition cvec_push_front :: "bool \<Rightarrow> 'a cvec \<Rightarrow> 'a \<Rightarrow> fault + 'a cvec" where
  "cvec_push_front ok v item =
     (case cvec_maybe_grow ok v of
        Break v1 \<Rightarrow> Inr v1
      | Continue v1 \<Rightarrow>
          (case memcpy (v_data v1) (v_t v1) 1 0 (v_t v1 * v_n v1) of
             Inl f \<Rightarrow> Inl f
           | Inr d \<Rightarrow>
               (case store d 0 item of
                  Inl f \<Rightarrow> Inl f
                | Inr d' \<Rightarrow> Inr (v1\<lparr>v_data := d', v_n := v_n v1 + 1\<rparr>))))"

section \<open>Reading elements\<close>

definition cvec_size :: "'a cvec \<Rightarrow> size_t" where
  "cvec_size v = v_n v"

definition cvec_cap :: "'a cvec \<Rightarrow> size_t" where
  "cvec_cap v = v_m v"

definition cvec_empty :: "'a cvec \<Rightarrow> bool" where
  "cvec_empty v = (v_n v = 0)"

definition cvec_get :: "'a cvec \<Rightarrow> size_t \<Rightarrow> fault + 'a" where
  "cvec_get v i = load (v_data v) i"

definition cvec_at :: "'a cvec \<Rightarrow> size_t \<Rightarrow> fault + 'a" where
  "cvec_at v i = (if i < v_n v then load (v_data v) i else Inr (v_sentinel v))"

definition cvec_front :: "'a cvec \<Rightarrow> fault + 'a" where
  "cvec_front v = (if 0 < v_n v then load (v_data v) 0 else Inr (v_sentinel v))"

definition cvec_back :: "'a cvec \<Rightarrow> fault + 'a" where
  "cvec_back v = (if 0 < v_n v then load (v_data v) (v_n v - 1) else Inr (v_sentinel v))"

definition cvec_had_error :: "'a cvec \<Rightarrow> bool" where
  "cvec_had_error v = (v_e v \<noteq> CVEC_EOK)"

definition cvec_error :: "'a cvec \<Rightarrow> int" where
  "cvec_error v = v_e v"

definition cvec_strerror :: "'a cvec \<Rightarrow> string" where
  "cvec_strerror v = (if v_e v = CVEC_EOOM then ''Out of memory'' else ''No error'')"

section \<open>Removing elements\<close>

text \<open>
  \<^verbatim>\<open>if (on_free) on_free(arg);\<close> The argument is read from the vector, which may be
  undefined.
\<close>

definition call_on_free :: "'a cvec \<Rightarrow> fault + 'a \<Rightarrow> fault + 'a list" where
  "call_on_free v arg =
     (if v_on_free v then (case arg of Inl f \<Rightarrow> Inl f | Inr x \<Rightarrow> Inr [x]) else Inr [])"

definition cvec_erase :: "'a cvec \<Rightarrow> size_t \<Rightarrow> fault + ('a cvec \<times> 'a list)" where
  "cvec_erase v pos =
     (if 0 < v_n v then
        let p = pos in
        case call_on_free v (load (v_data v) p) of
          Inl f \<Rightarrow> Inl f
        | Inr called \<Rightarrow>
            (case memcpy (v_data v) (v_t v) p (p + 1) (v_t v * (v_n v - (p - 1))) of
               Inl f \<Rightarrow> Inl f
             | Inr d \<Rightarrow> Inr (v\<lparr>v_data := d, v_n := v_n v - 1\<rparr>, called))
      else Inr (v, []))"

text \<open>
  The counting loop of \<^verbatim>\<open>cvec_erase_n\<close>:
  \<^verbatim>\<open>for (__x = __p; __t < __c && __x < (__v).__n; ++__t, ++__x) ;\<close>
\<close>

function count_loop :: "size_t \<Rightarrow> size_t \<Rightarrow> size_t \<Rightarrow> size_t \<Rightarrow> size_t" where
  "count_loop x t c n = (if t < c \<and> x < n then count_loop (x + 1) (t + 1) c n else t)"
  by pat_completeness auto
termination
proof (relation "measure (\<lambda>(x, t, c, n). unat n - unat x)")
  show "wf (measure (\<lambda>(x :: size_t, t :: size_t, c :: size_t, n :: size_t). unat n - unat x))"
    by simp
next
  fix x t c n :: size_t
  assume "t < c \<and> x < n"
  then have "unat x < unat n" and "unat (x + 1) = Suc (unat x)"
    by unat_arith+
  then show "((x + 1, t + 1, c, n), (x, t, c, n)) \<in> measure (\<lambda>(x, t, c, n). unat n - unat x)"
    by simp
qed

declare count_loop.simps [simp del]

text \<open>
  \<^verbatim>\<open>cvec_erase_n\<close> declares \<^verbatim>\<open>size_t __p = (__pos)\<close> and, when \<^verbatim>\<open>__p == 1\<close>, expands
  \<^verbatim>\<open>cvec_erase(__v, __p)\<close>. The body of that macro declares its own
  \<^verbatim>\<open>size_t __p = (__pos)\<close>, which after substitution reads \<^verbatim>\<open>size_t __p = (__p)\<close>: the
  inner variable is initialised from itself, so the position the inner macro works with
  is not the 1 of the outer variable but an indeterminate value. That value is the
  argument \<open>inner_p\<close>: the program does not decide it.
  A position of 0 matches neither branch.
\<close>

definition cvec_erase_n ::
  "'a cvec \<Rightarrow> size_t \<Rightarrow> size_t \<Rightarrow> size_t \<Rightarrow> fault + ('a cvec \<times> 'a list)" where
  "cvec_erase_n v pos count inner_p =
     (let p = pos in
      if p = 1 then cvec_erase v inner_p
      else if 1 < p \<and> 0 < v_n v then
        let c = count;
            t = count_loop p 0 c (v_n v)
        in case (if v_on_free v then destroy_loop (v_data v) p (p + t) [] else Inr []) of
             Inl f \<Rightarrow> Inl f
           | Inr called \<Rightarrow>
               (case memcpy (v_data v) (v_t v) p (p + t) (v_t v * (v_n v - (p - t))) of
                  Inl f \<Rightarrow> Inl f
                | Inr d \<Rightarrow> Inr (v\<lparr>v_data := d, v_n := v_n v - t\<rparr>, called))
      else Inr (v, []))"

section \<open>Popping and clearing\<close>

definition cvec_pop_front :: "'a cvec \<Rightarrow> fault + ('a cvec \<times> 'a list)" where
  "cvec_pop_front v =
     (if 0 < v_n v then
        case call_on_free v (cvec_front v) of
          Inl f \<Rightarrow> Inl f
        | Inr called \<Rightarrow>
            (case memcpy (v_data v) (v_t v) 0 1 (v_t v * (v_n v - 1)) of
               Inl f \<Rightarrow> Inl f
             | Inr d \<Rightarrow> Inr (v\<lparr>v_n := v_n v - 1, v_data := d\<rparr>, called))
      else Inr (v, []))"

definition cvec_pop_back :: "'a cvec \<Rightarrow> fault + ('a cvec \<times> 'a list)" where
  "cvec_pop_back v =
     (if 0 < v_n v then
        case call_on_free v (cvec_back v) of
          Inl f \<Rightarrow> Inl f
        | Inr called \<Rightarrow> Inr (v\<lparr>v_n := v_n v - 1\<rparr>, called)
      else Inr (v, []))"

text \<open>
  The loop of \<^verbatim>\<open>cvec_clear\<close> is
  \<^verbatim>\<open>for (size_t __i = 0; __i < (__v).__n; ++i) (__v).__on_free((__v).__data[__i]);\<close>
  It increments \<^verbatim>\<open>i\<close>, a variable of the code that uses the macro (taken here as an
  integer that does not overflow), and never \<^verbatim>\<open>__i\<close>. The loop may therefore run for
  ever, so it runs on fuel: \<open>None\<close> is a loop that has not ended when the fuel has.
  The result holds the calls made and the caller's \<^verbatim>\<open>i\<close>.
\<close>

fun clear_loop ::
  "nat \<Rightarrow> 'a slot list option \<Rightarrow> size_t \<Rightarrow> size_t \<Rightarrow> int \<Rightarrow> 'a list \<Rightarrow> (fault + ('a list \<times> int)) option" where
  "clear_loop 0 d x n i acc = None"
| "clear_loop (Suc fuel) d x n i acc =
     (if x < n
      then (case load d x of
              Inl f \<Rightarrow> Some (Inl f)
            | Inr a \<Rightarrow> clear_loop fuel d x n (i + 1) (acc @ [a]))
      else Some (Inr (acc, i)))"

definition cvec_clear :: "nat \<Rightarrow> 'a cvec \<Rightarrow> int \<Rightarrow> (fault + ('a cvec \<times> 'a list \<times> int)) option" where
  "cvec_clear fuel v i =
     (if v_on_free v then
        (case clear_loop fuel (v_data v) 0 (v_n v) i [] of
           None \<Rightarrow> None
         | Some (Inl f) \<Rightarrow> Some (Inl f)
         | Some (Inr (called, i')) \<Rightarrow> Some (Inr (v\<lparr>v_n := 0\<rparr>, called, i')))
      else Some (Inr (v\<lparr>v_n := 0\<rparr>, [], i)))"

section \<open>The public interface as a whole\<close>

text \<open>
  One constructor for each macro that changes a vector, with the arguments of the call
  and what the program does not decide: whether the allocation of a macro that may call
  \<^verbatim>\<open>realloc\<close> succeeds, the fuel and the caller's \<^verbatim>\<open>i\<close> of \<^verbatim>\<open>cvec_clear\<close>, and the
  indeterminate position of \<^verbatim>\<open>cvec_erase_n\<close>.
  \<open>run\<close> is the vector after the call, when the call returns without undefined
  behaviour.
\<close>

datatype 'a call =
    Init size_t 'a bool
  | Set_on_free bool
  | Free
  | Reserve bool size_t
  | Shrink_to_fit bool
  | Clear nat int
  | Insert bool size_t 'a
  | Erase size_t
  | Erase_n size_t size_t size_t
  | Push_front bool 'a
  | Push_back bool 'a
  | Pop_front
  | Pop_back

definition returned :: "fault + 'a cvec \<Rightarrow> 'a cvec option" where
  "returned r = (case r of Inl f \<Rightarrow> None | Inr v \<Rightarrow> Some v)"

definition returned_with :: "fault + ('a cvec \<times> 'b) \<Rightarrow> 'a cvec option" where
  "returned_with r = (case r of Inl f \<Rightarrow> None | Inr (v, x) \<Rightarrow> Some v)"

fun run :: "'a call \<Rightarrow> 'a cvec \<Rightarrow> 'a cvec option" where
  "run (Init sz s f) v = Some (cvec_init sz s f)"
| "run (Set_on_free f) v = Some (cvec_set_on_free v f)"
| "run Free v = returned_with (cvec_free v)"
| "run (Reserve ok k) v = Some (cvec_reserve ok v k)"
| "run (Shrink_to_fit ok) v = Some (cvec_shrink_to_fit ok v)"
| "run (Clear fuel i) v = (case cvec_clear fuel v i of None \<Rightarrow> None | Some r \<Rightarrow> returned_with r)"
| "run (Insert ok p x) v = returned (cvec_insert ok v p x)"
| "run (Erase p) v = returned_with (cvec_erase v p)"
| "run (Erase_n p c inner_p) v = returned_with (cvec_erase_n v p c inner_p)"
| "run (Push_front ok x) v = returned (cvec_push_front ok v x)"
| "run (Push_back ok x) v = returned (cvec_push_back ok v x)"
| "run Pop_front v = returned_with (cvec_pop_front v)"
| "run Pop_back v = returned_with (cvec_pop_back v)"

text \<open>A sequence of calls, one after the other, as long as each returns.\<close>

fun run_all :: "'a call list \<Rightarrow> 'a cvec \<Rightarrow> 'a cvec option" where
  "run_all [] v = Some v"
| "run_all (c # cs) v = (case run c v of None \<Rightarrow> None | Some v' \<Rightarrow> run_all cs v')"

text \<open>The calls that add an element, and the outcome of the allocation they were given.\<close>

fun adds :: "'a call \<Rightarrow> bool" where
  "adds (Insert ok p x) = True"
| "adds (Push_front ok x) = True"
| "adds (Push_back ok x) = True"
| "adds c = False"

text \<open>The calls that set every field anew: initialisation and teardown.\<close>

fun resets :: "'a call \<Rightarrow> bool" where
  "resets (Init sz s f) = True"
| "resets Free = True"
| "resets c = False"

text \<open>
  The call reaches \<^verbatim>\<open>realloc\<close> and the allocation fails: \<^verbatim>\<open>cvec_reserve\<close> always
  reallocates, \<^verbatim>\<open>cvec_shrink_to_fit\<close> when the capacity exceeds the length, and the
  adding calls when the vector is full.
\<close>

fun failed_realloc :: "'a call \<Rightarrow> 'a cvec \<Rightarrow> bool" where
  "failed_realloc (Reserve ok k) v = (\<not> ok)"
| "failed_realloc (Shrink_to_fit ok) v = (\<not> ok \<and> v_n v < v_m v)"
| "failed_realloc (Insert ok p x) v = (\<not> ok \<and> v_n v = v_m v)"
| "failed_realloc (Push_front ok x) v = (\<not> ok \<and> v_n v = v_m v)"
| "failed_realloc (Push_back ok x) v = (\<not> ok \<and> v_n v = v_m v)"
| "failed_realloc c v = False"

text \<open>A call of \<^verbatim>\<open>cvec_reserve\<close> that asks for at least the current length.\<close>

fun reserve_keeps_length :: "'a call \<Rightarrow> 'a cvec \<Rightarrow> bool" where
  "reserve_keeps_length (Reserve ok k) v = (v_n v \<le> k)"
| "reserve_keeps_length c v = True"

text \<open>
  The growth policy in the specification's words: a target of 2 for capacity 0 and of
  twice the capacity otherwise, and one slot beyond the target (in \<^verbatim>\<open>size_t\<close>).
\<close>

definition spec_grown_capacity :: "size_t \<Rightarrow> size_t" where
  "spec_grown_capacity m = (if m = 0 then 2 else 2 * m) + 1"

text \<open>
  The vector holds the elements \<open>xs\<close>: its length is theirs and the first slots of
  its block hold them, in order.
\<close>

definition block :: "'a cvec \<Rightarrow> 'a slot list" where
  "block v = (case v_data v of None \<Rightarrow> [] | Some b \<Rightarrow> b)"

definition holds :: "'a cvec \<Rightarrow> 'a list \<Rightarrow> bool" where
  "holds v xs = (unat (v_n v) = length xs \<and> take (length xs) (block v) = map Val xs)"

text \<open>
  A vector in good order: it holds \<open>xs\<close> and its block has as many slots as its capacity
  says (none for \<^verbatim>\<open>NULL\<close>).
\<close>

definition valid :: "'a cvec \<Rightarrow> 'a list \<Rightarrow> bool" where
  "valid v xs = (holds v xs \<and> length (block v) = unat (v_m v))"

text \<open>
  The size in bytes of the block after one more growth fits \<^verbatim>\<open>size_t\<close>, for elements of
  at least one byte.
\<close>

definition growable :: "'a cvec \<Rightarrow> bool" where
  "growable v = (0 < unat (v_t v) \<and> unat (v_t v) * (2 * unat (v_m v) + 3) < 2 ^ 64)"

text \<open>
  A vector of three \<^verbatim>\<open>int\<close>s (four bytes each) that fills its block: the state after
  \<^verbatim>\<open>cvec_init\<close> and three calls of \<^verbatim>\<open>cvec_push_back\<close>. The second is the same
  vector in a block of seven slots, as after \<^verbatim>\<open>cvec_reserve(v, 7)\<close>.
\<close>

definition full3 :: "int cvec" where
  "full3 = \<lparr>v_n = 3, v_m = 3, v_t = 4, v_data = Some [Val 1, Val 2, Val 3],
            v_on_free = False, v_e = CVEC_EOK, v_sentinel = - 1\<rparr>"

definition roomy3 :: "int cvec" where
  "roomy3 = \<lparr>v_n = 3, v_m = 7, v_t = 4,
             v_data = Some [Val 1, Val 2, Val 3, Junk, Junk, Junk, Junk],
             v_on_free = False, v_e = CVEC_EOK, v_sentinel = - 1\<rparr>"

section \<open>Facts about the library model and the loops\<close>

lemma memcpy_nothing:
  "memcpy (Some b) t di si 0 = (if length b < unat di \<or> length b < unat si then Inl Undefined else Inr (Some b))"
  by (simp add: memcpy_def)

lemma unat_succ_le: "unat (x + 1 :: size_t) \<le> Suc (unat x)"
proof -
  have "unat (x + 1) = (unat x + 1) mod 2 ^ 64"
    by (simp add: unat_word_ariths)
  also have "\<dots> \<le> unat x + 1"
    by (rule mod_less_eq_dividend)
  finally show ?thesis by simp
qed

lemma unat_spec_grown_capacity:
  assumes "unat m < 2 ^ 63"
  shows "unat (spec_grown_capacity m) = (if unat m = 0 then 2 else 2 * unat m) + 1"
proof (cases "m = 0")
  case True
  then show ?thesis by (simp add: spec_grown_capacity_def)
next
  case False
  then have nz: "unat m \<noteq> 0"
    by (simp add: unat_eq_0)
  have "2 * unat m + 1 < 2 ^ 64"
    using assms by simp
  then have "unat (2 * m + 1) = 2 * unat m + 1"
    by (simp add: unat_word_ariths)
  with False nz show ?thesis
    by (simp add: spec_grown_capacity_def)
qed

lemma maybe_grow_full:
  "v_n v = v_m v \<Longrightarrow>
   cvec_maybe_grow ok v =
     (if ok
      then Continue (v\<lparr>v_m := spec_grown_capacity (v_m v),
             v_data := realloc True (v_data v) (v_t v) (v_t v * spec_grown_capacity (v_m v))\<rparr>)
      else Break (v\<lparr>v_m := spec_grown_capacity (v_m v), v_data := None, v_e := CVEC_EOOM\<rparr>))"
  by (simp add: cvec_maybe_grow_def spec_grown_capacity_def realloc_def Let_def push_bit_eq_mult
      mult.commute)

lemma maybe_grow_room: "v_n v \<noteq> v_m v \<Longrightarrow> cvec_maybe_grow ok v = Continue v"
  by (simp add: cvec_maybe_grow_def)

lemma grown_capacity_bounds:
  assumes "unat m < 2 ^ 63"
  shows "m \<le> spec_grown_capacity m" and "m + 1 \<le> spec_grown_capacity m"
proof -
  have g: "unat (spec_grown_capacity m) = (if unat m = 0 then 2 else 2 * unat m) + 1"
    using assms by (rule unat_spec_grown_capacity)
  then show "m \<le> spec_grown_capacity m"
    by (simp add: word_le_nat_alt)
  have "unat (m + 1) \<le> Suc (unat m)"
    by (rule unat_succ_le)
  with g show "m + 1 \<le> spec_grown_capacity m"
    by (simp add: word_le_nat_alt split: if_splits)
qed

lemma unat_count_loop:
  "unat (count_loop x t c n) = unat t + min (unat c - unat t) (unat n - unat x)"
proof (induction x t c n rule: count_loop.induct)
  case (1 x t c n)
  show ?case
  proof (cases "t < c \<and> x < n")
    case True
    then have lt: "unat t < unat c" "unat x < unat n"
      by (simp_all add: word_less_nat_alt)
    from True have suc: "unat (t + 1) = Suc (unat t)" "unat (x + 1) = Suc (unat x)"
      by unat_arith+
    have "unat (count_loop x t c n) = unat (count_loop (x + 1) (t + 1) c n)"
      using True by (subst count_loop.simps) simp
    also have "\<dots> = unat (t + 1) + min (unat c - unat (t + 1)) (unat n - unat (x + 1))"
      using True by (rule "1.IH")
    also have "\<dots> = unat t + min (unat c - unat t) (unat n - unat x)"
      using lt suc by simp
    finally show ?thesis .
  next
    case False
    then have "unat c \<le> unat t \<or> unat n \<le> unat x"
      by (auto simp: word_less_nat_alt)
    moreover have "count_loop x t c n = t"
      using False by (subst count_loop.simps) auto
    ultimately show ?thesis by auto
  qed
qed

lemma count_loop_le: "count_loop p 0 c n \<le> n"
  by (simp add: word_le_nat_alt unat_count_loop)

lemma clear_loop_stuck:
  "x < n \<Longrightarrow> load d x = Inr a \<Longrightarrow> clear_loop fuel d x n i acc = None"
  by (induction fuel arbitrary: i acc) simp_all

lemma holds_load:
  assumes "holds v xs" and "unat i < length xs"
  shows "load (v_data v) i = Inr (xs ! unat i)"
proof -
  from assms(1) have t: "take (length xs) (block v) = map Val xs"
    by (simp add: holds_def)
  then have "length (take (length xs) (block v)) = length xs"
    by simp
  then have len: "length xs \<le> length (block v)"
    by simp
  from t have "take (length xs) (block v) ! unat i = map Val xs ! unat i"
    by simp
  with assms(2) have nth: "block v ! unat i = Val (xs ! unat i)"
    by simp
  from assms(2) len have "unat i < length (block v)"
    by simp
  with nth show ?thesis
    by (cases "v_data v") (simp_all add: load_def block_def)
qed

lemma le_mult_pos: "0 < t \<Longrightarrow> k \<le> t * k" for t k :: nat
  by (cases t) simp_all

lemma unat_size_t_less: "unat (x :: size_t) < 2 ^ 64"
proof -
  have "unat x < 2 ^ LENGTH(64)"
    by (rule unsigned_less)
  then show ?thesis by simp
qed

lemma fault_is_Undefined: "(f :: fault) = Undefined"
  by (cases f) simp

lemma memcpy_overlap:
  assumes "unat di * unat t < unat si * unat t + unat nbytes"
    and "unat si * unat t < unat di * unat t + unat nbytes"
  shows "memcpy d t di si nbytes = Inl Undefined"
proof (cases d)
  case None
  then show ?thesis by (simp add: memcpy_def)
next
  case (Some b)
  from assms have "unat nbytes \<noteq> 0" by auto
  with assms Some show ?thesis
    by (simp add: memcpy_def Let_def)
qed

lemma growable_capacity:
  assumes "growable v"
  shows "unat (v_m v) < 2 ^ 63"
    and "unat (v_t v * spec_grown_capacity (v_m v)) div unat (v_t v) = unat (spec_grown_capacity (v_m v))"
proof -
  from assms have t: "0 < unat (v_t v)" and b: "unat (v_t v) * (2 * unat (v_m v) + 3) < 2 ^ 64"
    by (simp_all add: growable_def)
  have "2 * unat (v_m v) + 3 \<le> unat (v_t v) * (2 * unat (v_m v) + 3)"
    using t by simp
  then have "2 * unat (v_m v) + 3 < (2 ^ 64 :: nat)" using b by (rule le_less_trans)
  then show m: "unat (v_m v) < 2 ^ 63" by simp
  have g: "unat (spec_grown_capacity (v_m v)) \<le> 2 * unat (v_m v) + 3"
    by (simp add: unat_spec_grown_capacity [OF m])
  have "unat (v_t v) * unat (spec_grown_capacity (v_m v)) \<le> unat (v_t v) * (2 * unat (v_m v) + 3)"
    using g by (rule mult_le_mono2)
  then have "unat (v_t v) * unat (spec_grown_capacity (v_m v)) < 2 ^ 64" using b by (rule le_less_trans)
  then have "unat (v_t v * spec_grown_capacity (v_m v)) = unat (v_t v) * unat (spec_grown_capacity (v_m v))"
    by (simp add: unat_word_ariths)
  with t show "unat (v_t v * spec_grown_capacity (v_m v)) div unat (v_t v) = unat (spec_grown_capacity (v_m v))"
    by simp
qed

lemma holds_length: "holds v xs \<Longrightarrow> length xs \<le> length (block v)"
proof -
  assume "holds v xs"
  then have "length (take (length xs) (block v)) = length (map Val xs)"
    by (simp add: holds_def)
  then show ?thesis by simp
qed

lemma valid_le: "valid v xs \<Longrightarrow> v_n v \<le> v_m v"
  using holds_length [of v xs] by (simp add: valid_def holds_def word_le_nat_alt)

lemma valid_after_growth:
  assumes "valid v xs" and "growable v" and "v_n v = v_m v"
  shows "valid (v\<lparr>v_m := spec_grown_capacity (v_m v),
           v_data := realloc True (v_data v) (v_t v) (v_t v * spec_grown_capacity (v_m v))\<rparr>) xs"
    and "v_m v < spec_grown_capacity (v_m v)"
proof -
  note gc = growable_capacity [OF assms(2)]
  have G: "unat (spec_grown_capacity (v_m v)) = (if unat (v_m v) = 0 then 2 else 2 * unat (v_m v)) + 1"
    by (rule unat_spec_grown_capacity [OF gc(1)])
  then show lt: "v_m v < spec_grown_capacity (v_m v)"
    by (simp add: word_less_nat_alt)
  from assms(1) have h: "unat (v_n v) = length xs" "take (length xs) (block v) = map Val xs"
    and len: "length (block v) = unat (v_m v)"
    by (simp_all add: valid_def holds_def)
  have r: "realloc True (v_data v) (v_t v) (v_t v * spec_grown_capacity (v_m v)) =
      Some (block v @ replicate (unat (spec_grown_capacity (v_m v)) - unat (v_m v)) Junk)"
    using len G by (simp add: realloc_def resize_def gc(2) block_def split: option.splits)
  from h len assms(3) have "length xs = length (block v)" by simp
  with h(2) have "take (length xs) (block v @ replicate (unat (spec_grown_capacity (v_m v)) - unat (v_m v)) Junk)
      = map Val xs"
    by simp
  with h(1) len G show "valid (v\<lparr>v_m := spec_grown_capacity (v_m v),
           v_data := realloc True (v_data v) (v_t v) (v_t v * spec_grown_capacity (v_m v))\<rparr>) xs"
    by (simp add: valid_def holds_def block_def r)
qed

lemma valid_store_end:
  assumes "valid v xs" and "v_n v < v_m v"
  shows "\<exists>b. v_data v = Some b \<and> store (v_data v) (v_n v) x = Inr (Some (b[unat (v_n v) := Val x])) \<and>
           valid (v\<lparr>v_data := Some (b[unat (v_n v) := Val x]), v_n := v_n v + 1\<rparr>) (xs @ [x])"
proof -
  from assms(1) have h: "unat (v_n v) = length xs" "take (length xs) (block v) = map Val xs"
    and len: "length (block v) = unat (v_m v)"
    by (simp_all add: valid_def holds_def)
  from assms(2) have lt: "unat (v_n v) < unat (v_m v)"
    by (simp add: word_less_nat_alt)
  then have "block v \<noteq> []" using len by auto
  then obtain b where b: "v_data v = Some b" "block v = b"
    by (cases "v_data v") (simp_all add: block_def)
  from assms(2) have "unat (v_n v + 1) = Suc (unat (v_n v))"
    by unat_arith
  with h(1) have suc: "unat (v_n v + 1) = Suc (length xs)"
    by simp
  have "take (Suc (length xs)) (b[length xs := Val x]) = map Val xs @ [Val x]"
    using h(2) b(2) lt len h(1) by (simp add: take_Suc_conv_app_nth)
  with b h len lt suc show ?thesis
    by (simp add: store_def valid_def holds_def block_def)
qed

lemma maybe_grow_continues:
  assumes "ok \<or> v_n v \<noteq> v_m v"
  obtains v1 where "cvec_maybe_grow ok v = Continue v1" and "v_n v1 = v_n v" and "v_t v1 = v_t v"
proof (cases "v_n v = v_m v")
  case True
  with assms have "ok" by simp
  with True that show ?thesis
    by (simp add: maybe_grow_full)
next
  case False
  with that show ?thesis
    by (simp add: maybe_grow_room)
qed

lemma grow_valid:
  assumes "valid v xs" and "growable v"
  obtains v1 where "cvec_maybe_grow True v = Continue v1" and "valid v1 xs"
    and "v_n v1 < v_m v1" and "v_n v1 = v_n v" and "v_t v1 = v_t v" and "v_e v1 = v_e v"
proof (cases "v_n v = v_m v")
  case True
  let ?v1 = "v\<lparr>v_m := spec_grown_capacity (v_m v),
           v_data := realloc True (v_data v) (v_t v) (v_t v * spec_grown_capacity (v_m v))\<rparr>"
  from valid_after_growth [OF assms True] True
  have "valid ?v1 xs" and "v_n ?v1 < v_m ?v1" by simp_all
  moreover have "cvec_maybe_grow True v = Continue ?v1"
    using True by (simp add: maybe_grow_full)
  ultimately show ?thesis
    using that [of ?v1] by simp
next
  case False
  with valid_le [OF assms(1)] have "v_n v < v_m v" by simp
  moreover have "cvec_maybe_grow True v = Continue v"
    using False by (simp add: maybe_grow_room)
  ultimately show ?thesis
    using that [of v] assms(1) by simp
qed

lemma shift_one:
  assumes "length ys = k" and "b = map Val ys @ Val y # r # rest"
  shows "(take (Suc k) b @ take 1 (drop k b) @ drop (Suc (Suc k)) b)[k := Val x] =
     map Val ys @ Val x # Val y # rest"
  using assms by (simp add: list_update_append)

lemma destroy_loop_holds:
  "holds v xs \<Longrightarrow> d = v_data v \<Longrightarrow> stop = v_n v \<Longrightarrow>
   destroy_loop d x stop acc = Inr (acc @ drop (unat x) xs)"
proof (induction d x stop acc rule: destroy_loop.induct)
  case (1 d x stop acc)
  from "1.prems" have n: "unat stop = length xs"
    by (simp add: holds_def)
  show ?case
  proof (cases "x < stop")
    case True
    then have lt: "unat x < length xs"
      using n by (simp add: word_less_nat_alt)
    from True have suc: "unat (x + 1) = Suc (unat x)"
      by unat_arith
    have l: "load d x = Inr (xs ! unat x)"
      using "1.prems" lt by (simp add: holds_load)
    have "destroy_loop d x stop acc = destroy_loop d (x + 1) stop (acc @ [xs ! unat x])"
      using True l by (subst destroy_loop.simps) simp
    also have "\<dots> = Inr ((acc @ [xs ! unat x]) @ drop (unat (x + 1)) xs)"
      using True l "1.prems" by (intro "1.IH") simp_all
    also have "\<dots> = Inr (acc @ drop (unat x) xs)"
      using lt suc by (simp add: Cons_nth_drop_Suc)
    finally show ?thesis .
  next
    case False
    then have "length xs \<le> unat x"
      using n by (simp add: word_less_nat_alt)
    moreover have "destroy_loop d x stop acc = Inr acc"
      using False by (subst destroy_loop.simps) simp
    ultimately show ?thesis by simp
  qed
qed

lemma holds_back:
  assumes "holds v xs" and "xs \<noteq> []"
  shows "cvec_back v = Inr (last xs)"
proof -
  from assms have n: "unat (v_n v) = length xs"
    by (simp add: holds_def)
  with assms(2) have pos: "0 < v_n v"
    by (simp add: word_less_nat_alt)
  then have u: "unat (v_n v - 1) = length xs - 1"
    using n by (simp add: unat_minus_one word_greater_zero_iff)
  with assms(2) have "unat (v_n v - 1) < length xs"
    by simp
  then have "load (v_data v) (v_n v - 1) = Inr (xs ! unat (v_n v - 1))"
    by (rule holds_load [OF assms(1)])
  with u assms(2) pos show ?thesis
    by (simp add: cvec_back_def last_conv_nth)
qed

section \<open>What a call changes\<close>

text \<open>
  An adding call that returns has either failed to allocate (nothing but the capacity, the
  storage and the error field changes), grown the block, or found room.
\<close>

lemma run_adds_cases:
  assumes "adds c" and "run c v = Some v'"
  obtains
    (failed) "failed_realloc c v" and "v_n v = v_m v" and
      "v' = v\<lparr>v_m := spec_grown_capacity (v_m v), v_data := None, v_e := CVEC_EOOM\<rparr>"
  | (grown) d where "\<not> failed_realloc c v" and "v_n v = v_m v" and
      "v' = v\<lparr>v_m := spec_grown_capacity (v_m v), v_data := d, v_n := v_n v + 1\<rparr>"
  | (room) d where "\<not> failed_realloc c v" and "v_n v \<noteq> v_m v" and
      "v' = v\<lparr>v_data := d, v_n := v_n v + 1\<rparr>"
proof (cases "v_n v = v_m v")
  case False
  with assms have "\<exists>d. v' = v\<lparr>v_data := d, v_n := v_n v + 1\<rparr>" and "\<not> failed_realloc c v"
    by (cases c; auto simp: returned_def cvec_insert_def cvec_push_front_def cvec_push_back_def
        maybe_grow_room Let_def split: sum.splits)+
  with False room show ?thesis by blast
next
  case True
  show ?thesis
  proof (cases "failed_realloc c v")
    case f: True
    with assms True
    have "v' = v\<lparr>v_m := spec_grown_capacity (v_m v), v_data := None, v_e := CVEC_EOOM\<rparr>"
      by (cases c; auto simp: returned_def cvec_insert_def cvec_push_front_def cvec_push_back_def
          maybe_grow_full Let_def split: sum.splits)
    with f True failed show ?thesis by blast
  next
    case f: False
    with assms True
    have "\<exists>d. v' = v\<lparr>v_m := spec_grown_capacity (v_m v), v_data := d, v_n := v_n v + 1\<rparr>"
      by (cases c; auto simp: returned_def cvec_insert_def cvec_push_front_def cvec_push_back_def
          maybe_grow_full Let_def split: sum.splits)
    with f True grown show ?thesis by blast
  qed
qed

text \<open>
  Every other call but initialisation and teardown never lengthens the vector, changes
  the capacity only in \<^verbatim>\<open>cvec_reserve\<close> and \<^verbatim>\<open>cvec_shrink_to_fit\<close>, and changes the
  error field only when its allocation fails.
\<close>

lemma run_others:
  assumes "\<not> adds c" and "\<not> resets c" and "run c v = Some v'"
  shows "v_n v' \<le> v_n v"
    and "v_e v' = (if failed_realloc c v then CVEC_EOOM else v_e v)"
    and "v_m v' = (case c of Reserve ok k \<Rightarrow> k
                   | Shrink_to_fit ok \<Rightarrow> (if v_n v < v_m v then v_n v else v_m v)
                   | _ \<Rightarrow> v_m v)"
proof -
  have sub1: "x - 1 \<le> x" if "0 < x" for x :: size_t
    using that by unat_arith
  have subt: "v_n v - count_loop p 0 k (v_n v) \<le> v_n v" for p k :: size_t
    by (rule word_sub_le) (rule count_loop_le)
  show "v_n v' \<le> v_n v"
    using assms sub1 subt
    by (cases c; auto simp: returned_with_def cvec_set_on_free_def cvec_reserve_def
        cvec_shrink_to_fit_def cvec_clear_def cvec_erase_def cvec_erase_n_def cvec_pop_front_def
        cvec_pop_back_def Let_def split: sum.splits option.splits if_splits prod.splits)
  show "v_e v' = (if failed_realloc c v then CVEC_EOOM else v_e v)"
    using assms
    by (cases c; auto simp: returned_with_def cvec_set_on_free_def cvec_reserve_def
        cvec_shrink_to_fit_def cvec_clear_def cvec_erase_def cvec_erase_n_def cvec_pop_front_def
        cvec_pop_back_def realloc_def Let_def split: sum.splits option.splits if_splits prod.splits)
  show "v_m v' = (case c of Reserve ok k \<Rightarrow> k
                   | Shrink_to_fit ok \<Rightarrow> (if v_n v < v_m v then v_n v else v_m v)
                   | _ \<Rightarrow> v_m v)"
    using assms
    by (cases c; auto simp: returned_with_def cvec_set_on_free_def cvec_reserve_def
        cvec_shrink_to_fit_def cvec_clear_def cvec_erase_def cvec_erase_n_def cvec_pop_front_def
        cvec_pop_back_def Let_def split: sum.splits option.splits if_splits prod.splits)
qed

section \<open>The example vectors\<close>

lemma full3_reached:
  "run_all [Push_back True 1, Push_back True 2, Push_back True 3] (cvec_init 4 (- 1) False) = Some full3"
  by code_simp

lemma roomy3_reached:
  "run_all [Reserve True 7, Push_back True 1, Push_back True 2, Push_back True 3]
     (cvec_init 4 (- 1) False) = Some roomy3"
  by code_simp

section \<open>Failed allocations\<close>

text \<open>
  C1. The specification requires that, when the reallocation of a growing push or
  insert, of reserve or of shrink-to-fit fails, the length, capacity and storage fields
  keep their values and the error field is \<^verbatim>\<open>CVEC_EOOM\<close>. The macros assign the result of \<^verbatim>\<open>realloc\<close> to
  \<^verbatim>\<open>__data\<close> before testing it and update \<^verbatim>\<open>__m\<close> whatever the outcome: on the full
  vector of three elements a failed push leaves capacity 7 and no storage, a failed
  reserve of 10 leaves capacity 10 and no storage, and a failed shrink-to-fit leaves
  capacity 3 and no storage. Only the length is kept and the error set.
\<close>

theorem failed_allocation_loses_capacity_and_storage:
  "cvec_push_back False full3 4 = Inr (full3\<lparr>v_m := 7, v_data := None, v_e := CVEC_EOOM\<rparr>) \<and>
   cvec_reserve False full3 10 = full3\<lparr>v_data := None, v_e := CVEC_EOOM, v_m := 10\<rparr> \<and>
   cvec_shrink_to_fit False roomy3 = roomy3\<lparr>v_data := None, v_e := CVEC_EOOM, v_m := 3\<rparr>"
  by (simp add: cvec_push_back_def cvec_maybe_grow_def cvec_reserve_def cvec_shrink_to_fit_def
      realloc_def full3_def roomy3_def Let_def)

text \<open>
  What a failed allocation does keep: the call returns, the length is unchanged and the
  error field is \<^verbatim>\<open>CVEC_EOOM\<close>; the storage is \<^verbatim>\<open>NULL\<close> afterwards.
\<close>

theorem failed_allocation_keeps_length_and_sets_error:
  "failed_realloc c v \<longrightarrow>
     (\<exists>v'. run c v = Some v' \<and> v_n v' = v_n v \<and> v_e v' = CVEC_EOOM \<and> v_data v' = None)"
  by (cases c)
    (auto simp: returned_def cvec_reserve_def cvec_shrink_to_fit_def cvec_insert_def
      cvec_push_front_def cvec_push_back_def maybe_grow_full realloc_def Let_def)

theorem failed_allocation_keeps_length_and_sets_error_witness:
  "failed_realloc (Push_back False 4) full3 \<and>
   run (Push_back False 4) full3 = Some (full3\<lparr>v_m := 7, v_data := None, v_e := CVEC_EOOM\<rparr>)"
proof -
  have f: "failed_realloc (Push_back False 4) full3"
    by (simp add: full3_def)
  have r: "run (Push_back False 4) full3 = Some (full3\<lparr>v_m := 7, v_data := None, v_e := CVEC_EOOM\<rparr>)"
    by code_simp
  from failed_allocation_keeps_length_and_sets_error [of "Push_back False 4" full3] f r
  show ?thesis by simp
qed

section \<open>Erasing a range\<close>

lemma cvec_erase_n_at_0: "cvec_erase_n v 0 c q = Inr (v, [])"
  by (simp add: cvec_erase_n_def)

text \<open>
  C2. The specification requires that \<^verbatim>\<open>cvec_erase_n(v, p, c)\<close> removes the elements of
  \<open>[p, p + c)\<close>, clamped to the length. The macro tests the position where the count is
  meant: position 0 matches neither of its branches, so erasing two elements from
  position 0 of a vector of three changes nothing (and position 1 erases one element at
  an indeterminate position, whatever the count). From position 2 the copy of the tail is given \<open>n - (p - t)\<close> elements
  instead of \<open>n - (p + t)\<close>, so source and destination overlap.
\<close>

theorem erase_n_at_position_0_erases_nothing:
  "cvec_erase_n roomy3 0 2 q = Inr (roomy3, []) \<and> cvec_erase_n roomy3 2 1000 q = Inl Undefined"
  by (simp add: cvec_erase_n_def roomy3_def count_loop.simps memcpy_def Let_def)

text \<open>
  From position 2 on, \<^verbatim>\<open>cvec_erase_n\<close> inside the vector always hands \<^verbatim>\<open>memcpy\<close>
  overlapping ranges (for sizes in bytes that fit \<^verbatim>\<open>size_t\<close>): it never returns.
\<close>

theorem erase_n_is_undefined_inside_the_vector:
  assumes "1 < p" and "p < v_n v" and "0 < unat (v_t v)"
    and "unat (v_t v) * (2 * unat (v_n v)) < 2 ^ 64"
  shows "cvec_erase_n v p c q = Inl Undefined"
proof -
  define t where "t = count_loop p 0 c (v_n v)"
  from assms(2) have pn: "unat p < unat (v_n v)"
    by (simp add: word_less_nat_alt)
  then have pos: "0 < v_n v"
    by (simp add: word_less_nat_alt)
  have ut: "unat t = min (unat c) (unat (v_n v) - unat p)"
    by (simp add: t_def unat_count_loop)
  then have tle: "unat t \<le> unat (v_n v) - unat p"
    by simp
  have n64: "unat (v_n v) < 2 ^ 64"
    by (rule unat_size_t_less)
  from tle pn n64 have pt: "unat (p + t) = unat p + unat t"
    by (simp add: unat_word_ariths)
  from assms(2) have d: "unat (v_n v - p) = unat (v_n v) - unat p"
    by (simp add: unat_sub)
  have small: "unat (v_n v) - unat p + unat t \<le> 2 * unat (v_n v)"
    using tle by simp
  have "unat (v_t v) * (unat (v_n v) - unat p + unat t) \<le> unat (v_t v) * (2 * unat (v_n v))"
    using small by (rule mult_le_mono2)
  then have b: "unat (v_t v) * (unat (v_n v) - unat p + unat t) < 2 ^ 64"
    using assms(4) by (rule le_less_trans)
  have "unat (v_n v) - unat p + unat t \<le> unat (v_t v) * (unat (v_n v) - unat p + unat t)"
    using assms(3) by (rule le_mult_pos)
  then have "unat (v_n v) - unat p + unat t < 2 ^ 64"
    using b by (rule le_less_trans)
  then have "unat (v_n v - p + t) = unat (v_n v) - unat p + unat t"
    using d by (simp add: unat_word_ariths)
  moreover have "unat (v_n v - (p - t)) = unat (v_n v - p + t)"
    by (rule arg_cong [where f = unat]) simp
  ultimately have c: "unat (v_n v - (p - t)) = unat (v_n v) - unat p + unat t"
    by simp
  have k: "unat (v_t v * (v_n v - (p - t))) = unat (v_t v) * (unat (v_n v) - unat p + unat t)"
    using b c by (simp add: unat_word_ariths)
  define D where "D = unat (v_n v) - unat p"
  have D: "0 < D"
    using pn by (simp add: D_def)
  have k': "unat (v_t v * (v_n v - (p - t))) = unat (v_t v) * (D + unat t)"
    using k by (simp add: D_def)
  have i1: "unat p * unat (v_t v) < unat (p + t) * unat (v_t v) + unat (v_t v * (v_n v - (p - t)))"
    unfolding pt k' using D assms(3) by (simp add: algebra_simps)
  have i2: "unat (p + t) * unat (v_t v) < unat p * unat (v_t v) + unat (v_t v * (v_n v - (p - t)))"
    unfolding pt k' using D assms(3) by (simp add: algebra_simps)
  from i1 i2 have m: "memcpy (v_data v) (v_t v) p (p + t) (v_t v * (v_n v - (p - t))) = Inl Undefined"
    by (rule memcpy_overlap)
  from assms(1) have "p \<noteq> 1" by auto
  with assms(1) pos m show ?thesis
    by (simp add: cvec_erase_n_def Let_def t_def fault_is_Undefined split: sum.splits)
qed

theorem erase_n_is_undefined_inside_the_vector_witness:
  "(1 :: size_t) < 2 \<and> 2 < v_n roomy3 \<and> 0 < unat (v_t roomy3) \<and>
   unat (v_t roomy3) * (2 * unat (v_n roomy3)) < 2 ^ 64 \<and>
   cvec_erase_n roomy3 2 1 0 = Inl Undefined"
proof -
  have h: "(1 :: size_t) < 2" "2 < v_n roomy3" "0 < unat (v_t roomy3)"
    "unat (v_t roomy3) * (2 * unat (v_n roomy3)) < 2 ^ 64"
    by (simp_all add: roomy3_def)
  from erase_n_is_undefined_inside_the_vector [OF h] h show ?thesis
    by simp
qed

section \<open>Clearing\<close>

text \<open>
  C3. The specification requires that \<^verbatim>\<open>cvec_clear\<close> calls the destructor once on every
  element, in order, and sets the length to 0. With a destructor set and a vector that is not empty, the
  loop of the macro never advances its index: whatever the fuel, the call does not
  return.
\<close>

theorem clear_with_destructor_never_returns:
  "cvec_clear fuel (cvec_set_on_free roomy3 True) i = None"
proof -
  have "clear_loop fuel (Some [Val (1 :: int), Val 2, Val 3, Junk, Junk, Junk, Junk]) 0 3 i [] = None"
    by (rule clear_loop_stuck [where a = "1 :: int"]) (simp_all add: load_def)
  then show ?thesis
    by (simp add: cvec_clear_def cvec_set_on_free_def roomy3_def)
qed

text \<open>
  \<^verbatim>\<open>cvec_clear\<close> returns, with length 0, the capacity untouched and no destructor call,
  when no destructor is set or the vector is empty; with a destructor and elements it
  never returns.
\<close>

theorem clear_completes_only_without_work:
  "(\<not> v_on_free v \<longrightarrow> cvec_clear fuel v i = Some (Inr (v\<lparr>v_n := 0\<rparr>, [], i))) \<and>
   (v_on_free v \<and> v_n v = 0 \<longrightarrow> cvec_clear (Suc fuel) v i = Some (Inr (v\<lparr>v_n := 0\<rparr>, [], i))) \<and>
   (v_on_free v \<and> holds v xs \<and> xs \<noteq> [] \<longrightarrow> cvec_clear fuel v i = None)"
proof (intro conjI impI)
  show "cvec_clear fuel v i = Some (Inr (v\<lparr>v_n := 0\<rparr>, [], i))" if "\<not> v_on_free v"
    using that by (simp add: cvec_clear_def)
  show "cvec_clear (Suc fuel) v i = Some (Inr (v\<lparr>v_n := 0\<rparr>, [], i))" if "v_on_free v \<and> v_n v = 0"
    using that by (simp add: cvec_clear_def)
next
  assume a: "v_on_free v \<and> holds v xs \<and> xs \<noteq> []"
  then have h: "holds v xs" and ne: "xs \<noteq> []" by simp_all
  from h ne have pos: "0 < v_n v"
    by (simp add: holds_def word_less_nat_alt)
  from ne have "load (v_data v) 0 = Inr (xs ! unat (0 :: size_t))"
    by (intro holds_load [OF h]) simp
  with pos have "clear_loop fuel (v_data v) 0 (v_n v) i [] = None"
    by (rule clear_loop_stuck)
  with a show "cvec_clear fuel v i = None"
    by (simp add: cvec_clear_def)
qed

theorem clear_completes_only_without_work_witness:
  "\<not> v_on_free roomy3 \<and> cvec_clear 0 roomy3 5 = Some (Inr (roomy3\<lparr>v_n := 0\<rparr>, [], 5)) \<and>
   v_on_free (cvec_init 4 (- 1 :: int) True) \<and> v_n (cvec_init 4 (- 1 :: int) True) = 0 \<and>
   cvec_clear 1 (cvec_init 4 (- 1 :: int) True) 5 = Some (Inr (cvec_init 4 (- 1) True, [], 5)) \<and>
   v_on_free (cvec_set_on_free roomy3 True) \<and> holds (cvec_set_on_free roomy3 True) [1, 2, 3] \<and>
   cvec_clear 1000 (cvec_set_on_free roomy3 True) 5 = None"
proof -
  have h: "\<not> v_on_free roomy3" "v_on_free (cvec_init 4 (- 1 :: int) True)"
    "v_n (cvec_init 4 (- 1 :: int) True) = 0" "v_on_free (cvec_set_on_free roomy3 True)"
    "holds (cvec_set_on_free roomy3 True) [1, 2, 3]"
    by (simp_all add: holds_def block_def roomy3_def cvec_init_def cvec_set_on_free_def)
  from clear_completes_only_without_work [of roomy3 0 5 "[]"]
    clear_completes_only_without_work [of "cvec_init 4 (- 1 :: int) True" 0 5 "[]"]
    clear_completes_only_without_work [of "cvec_set_on_free roomy3 True" 1000 5 "[1, 2, 3]"] h
  show ?thesis
    by (simp add: cvec_init_def)
qed

section \<open>Erasing one element\<close>

text \<open>
  C4. The specification requires that \<^verbatim>\<open>cvec_erase(v, p)\<close> with \<open>p < n\<close> moves the elements
  after \<open>p\<close> one slot down and decrements the length. The macro copies \<open>n - (p - 1)\<close> elements, two
  more than the \<open>n - (p + 1)\<close> that follow \<open>p\<close>: erasing position 1 of the full vector of
  three reads slots 2, 3 and 4 of a block of three slots, and with room to spare the
  source and the destination of the copy still overlap.
\<close>

theorem erase_copies_past_the_block:
  "cvec_erase full3 1 = Inl Undefined \<and> cvec_erase roomy3 1 = Inl Undefined"
  by (simp add: cvec_erase_def call_on_free_def memcpy_def full3_def roomy3_def Let_def)

text \<open>
  The same holds at every element of every vector whose size in bytes fits \<^verbatim>\<open>size_t\<close>:
  the copy always overlaps, so \<^verbatim>\<open>cvec_erase\<close> at a position below the length is
  undefined.
\<close>

theorem erase_is_undefined_at_every_element:
  assumes "p < v_n v" and "0 < unat (v_t v)" and "unat (v_t v) * (unat (v_n v) + 1) < 2 ^ 64"
  shows "cvec_erase v p = Inl Undefined"
proof -
  from assms(1) have pn: "unat p < unat (v_n v)"
    by (simp add: word_less_nat_alt)
  from pn have pos: "0 < v_n v"
    by (simp add: word_less_nat_alt)
  from assms(1) have p1: "unat (p + 1) = Suc (unat p)"
    by unat_arith
  have "unat (v_n v) + 1 \<le> unat (v_t v) * (unat (v_n v) + 1)"
    using assms(2) by (rule le_mult_pos)
  then have n1: "unat (v_n v) + 1 < (2 ^ 64 :: nat)"
    using assms(3) by (rule le_less_trans)
  have d: "unat (v_n v - p) = unat (v_n v) - unat p"
    using assms(1) by (simp add: unat_sub)
  have "unat (v_n v - (p - 1)) = unat (v_n v - p + 1)"
    by (rule arg_cong [where f = unat]) simp
  also have "\<dots> = unat (v_n v - p) + 1"
    using n1 pn d by (simp add: unat_word_ariths)
  finally have c: "unat (v_n v - (p - 1)) = unat (v_n v) - unat p + 1"
    using d by simp
  have "unat (v_t v) * (unat (v_n v) - unat p + 1) \<le> unat (v_t v) * (unat (v_n v) + 1)"
    by (rule mult_le_mono2) simp
  then have "unat (v_t v) * (unat (v_n v) - unat p + 1) < 2 ^ 64"
    using assms(3) by (rule le_less_trans)
  then have k: "unat (v_t v * (v_n v - (p - 1))) = unat (v_t v) * (unat (v_n v) - unat p + 1)"
    using c by (simp add: unat_word_ariths)
  have "unat (v_t v) * 2 \<le> unat (v_t v) * (unat (v_n v) - unat p + 1)"
    using pn by (intro mult_le_mono2) simp
  with assms(2) have big: "unat (v_t v) < unat (v_t v * (v_n v - (p - 1)))"
    using k by simp
  have m: "memcpy (v_data v) (v_t v) p (p + 1) (v_t v * (v_n v - (p - 1))) = Inl Undefined"
    using big p1 by (intro memcpy_overlap) (simp_all add: algebra_simps)
  show ?thesis
    using pos m by (simp add: cvec_erase_def Let_def fault_is_Undefined split: sum.splits)
qed

theorem erase_is_undefined_at_every_element_witness:
  "(1 :: size_t) < v_n roomy3 \<and> 0 < unat (v_t roomy3) \<and>
   unat (v_t roomy3) * (unat (v_n roomy3) + 1) < 2 ^ 64 \<and>
   cvec_erase roomy3 1 = Inl Undefined"
proof -
  have h: "(1 :: size_t) < v_n roomy3" "0 < unat (v_t roomy3)"
    "unat (v_t roomy3) * (unat (v_n roomy3) + 1) < 2 ^ 64"
    by (simp_all add: roomy3_def)
  from erase_is_undefined_at_every_element [OF h] h show ?thesis
    by simp
qed

section \<open>Inserting\<close>

text \<open>
  C5. The specification requires that \<^verbatim>\<open>cvec_insert(v, p, x)\<close> with \<open>p \<le> n\<close> yields the old
  prefix, \<open>x\<close> and the old suffix. The macro shifts the suffix with \<^verbatim>\<open>memcpy\<close> from \<open>data + p\<close> to
  \<open>data + p + 1\<close>: with two or more elements to shift the ranges overlap, which
  \<^verbatim>\<open>memcpy\<close> does not define. Inserting at position 0 of a vector of three, and
  \<^verbatim>\<open>cvec_push_front\<close> on it, are such calls.
\<close>

theorem insert_before_the_tail_is_undefined:
  "cvec_insert True roomy3 0 9 = Inl Undefined \<and> cvec_push_front True roomy3 9 = Inl Undefined"
  by (simp add: cvec_insert_def cvec_push_front_def cvec_maybe_grow_def memcpy_def roomy3_def Let_def)

text \<open>
  Whenever two or more elements are to be shifted and the vector does not fail to grow,
  \<^verbatim>\<open>cvec_insert\<close> is undefined.
\<close>

theorem insert_is_undefined_before_the_tail:
  assumes "unat p + 1 < unat (v_n v)" and "ok \<or> v_n v \<noteq> v_m v"
    and "0 < unat (v_t v)" and "unat (v_t v) * unat (v_n v) < 2 ^ 64"
  shows "cvec_insert ok v p x = Inl Undefined"
proof -
  from assms(2) obtain v1 where g: "cvec_maybe_grow ok v = Continue v1"
    and n1: "v_n v1 = v_n v" and t1: "v_t v1 = v_t v"
    by (rule maybe_grow_continues)
  from assms(1) have pn: "p \<le> v_n v"
    by (simp add: word_le_nat_alt)
  then have d: "unat (v_n v - p) = unat (v_n v) - unat p"
    by (rule unat_sub)
  have "unat (v_n v) < 2 ^ 64"
    by (rule unat_size_t_less)
  with assms(1) have p1: "unat (p + 1) = unat p + 1"
    by (simp add: unat_word_ariths)
  have "unat (v_t v) * (unat (v_n v) - unat p) \<le> unat (v_t v) * unat (v_n v)"
    by (rule mult_le_mono2) simp
  then have "unat (v_t v) * (unat (v_n v) - unat p) < 2 ^ 64"
    using assms(4) by (rule le_less_trans)
  then have k: "unat (v_t v * (v_n v - p)) = unat (v_t v) * (unat (v_n v) - unat p)"
    using d by (simp add: unat_word_ariths)
  have "unat (v_t v) * 2 \<le> unat (v_t v) * (unat (v_n v) - unat p)"
    using assms(1) by (intro mult_le_mono2) simp
  with assms(3) have big: "unat (v_t v) < unat (v_t v * (v_n v - p))"
    using k by simp
  have "memcpy (v_data v1) (v_t v) (p + 1) p (v_t v * (v_n v - p)) = Inl Undefined"
    using big p1 by (intro memcpy_overlap) (simp_all add: algebra_simps)
  then show ?thesis
    using g n1 t1 by (simp add: cvec_insert_def Let_def)
qed

theorem insert_is_undefined_before_the_tail_witness:
  "unat (0 :: size_t) + 1 < unat (v_n roomy3) \<and> v_n roomy3 \<noteq> v_m roomy3 \<and>
   0 < unat (v_t roomy3) \<and> unat (v_t roomy3) * unat (v_n roomy3) < 2 ^ 64 \<and>
   cvec_insert False roomy3 0 9 = Inl Undefined"
proof -
  have h: "unat (0 :: size_t) + 1 < unat (v_n roomy3)" "False \<or> v_n roomy3 \<noteq> v_m roomy3"
    "0 < unat (v_t roomy3)" "unat (v_t roomy3) * unat (v_n roomy3) < 2 ^ 64"
    by (simp_all add: roomy3_def)
  from insert_is_undefined_before_the_tail [OF h] h show ?thesis
    by simp
qed

text \<open>
  With at most one element to shift the ranges are disjoint, and on a vector in good
  order the insertion yields the old prefix, the item and the old suffix.
\<close>

theorem insert_at_the_tail:
  assumes "valid v xs" and "growable v" and "p \<le> v_n v" and "unat (v_n v) \<le> unat p + 1"
  shows "\<exists>v'. cvec_insert True v p x = Inr v' \<and>
           valid v' (take (unat p) xs @ [x] @ drop (unat p) xs) \<and> v_e v' = v_e v"
proof -
  from assms(1,2) obtain v1 where g: "cvec_maybe_grow True v = Continue v1"
    and v1: "valid v1 xs" and room: "v_n v1 < v_m v1" and n1: "v_n v1 = v_n v"
    and t1: "v_t v1 = v_t v" and e1: "v_e v1 = v_e v"
    by (rule grow_valid)
  from v1 have n: "unat (v_n v) = length xs" and tk: "take (length xs) (block v1) = map Val xs"
    and len: "length (block v1) = unat (v_m v1)"
    by (simp_all add: valid_def holds_def n1)
  from room n1 have lt: "length xs < length (block v1)"
    using n len by (simp add: word_less_nat_alt)
  then obtain b where b: "v_data v1 = Some b" "block v1 = b"
    by (cases "v_data v1") (simp_all add: block_def)
  from assms(2) have sz: "0 < unat (v_t v)"
    by (simp add: growable_def)
  from assms(3) have pn: "unat p \<le> length xs"
    using n by (simp add: word_le_nat_alt)
  have p1: "unat (p + 1) = unat p + 1"
  proof -
    have "unat (v_m v1) < 2 ^ 64" by (rule unat_size_t_less)
    with lt len pn show ?thesis
      by (simp add: unat_word_ariths)
  qed
  have suc: "unat (v_n v + 1) = Suc (length xs)"
  proof -
    have "unat (v_m v1) < 2 ^ 64" by (rule unat_size_t_less)
    with lt len n show ?thesis
      by (simp add: unat_word_ariths)
  qed
  show ?thesis
  proof (cases "unat p = length xs")
    case True
    then have "p = v_n v"
      using n by (simp add: word_unat_eq_iff)
    then have z: "v_t v * (v_n v - p) = 0" by simp
    have m: "memcpy (Some b) (v_t v) (p + 1) p (v_t v * (v_n v - p)) = Inr (Some b)"
      unfolding z using lt b(2) p1 True by (simp add: memcpy_nothing)
    have "take (Suc (length xs)) (b[length xs := Val x]) = map Val xs @ [Val x]"
      using tk b(2) lt by (simp add: take_Suc_conv_app_nth)
    then have "valid (v1\<lparr>v_data := Some (b[unat p := Val x]), v_n := v_n v + 1\<rparr>)
        (take (unat p) xs @ [x] @ drop (unat p) xs)"
      using True suc len b(2) by (simp add: valid_def holds_def block_def)
    with m g b lt True n1 t1 e1 show ?thesis
      by (simp add: cvec_insert_def Let_def store_def)
  next
    case False
    with pn assms(4) n have pp: "length xs = Suc (unat p)"
      by simp
    then obtain ys y where xs: "xs = ys @ [y]" and ys: "length ys = unat p"
      by (cases xs rule: rev_cases) simp_all
    from lt b(2) obtain r rest where dr: "drop (length xs) b = r # rest"
      by (cases "drop (length xs) b") simp_all
    have "b = take (length xs) b @ drop (length xs) b"
      by simp
    also have "\<dots> = map Val xs @ r # rest"
      using tk b(2) dr by simp
    finally have bb: "b = map Val ys @ Val y # r # rest"
      using xs by simp
    have d: "unat (v_n v - p) = 1"
      using assms(3) n pp by (simp add: unat_sub)
    then have "v_n v - p = 1"
      by (simp add: word_unat_eq_iff)
    then have k: "v_t v * (v_n v - p) = v_t v"
      by simp
    have m: "memcpy (Some b) (v_t v) (p + 1) p (v_t v * (v_n v - p)) =
        Inr (Some (take (Suc (unat p)) b @ take 1 (drop (unat p) b) @ drop (Suc (Suc (unat p))) b))"
    proof -
      have "(unat p + 2) * unat (v_t v) \<le> length b * unat (v_t v)"
        using lt b(2) pp by (intro mult_le_mono1) simp
      then have f: "\<not> length b * unat (v_t v) < unat (v_t v) + unat p * unat (v_t v) + unat (v_t v)"
        "\<not> length b * unat (v_t v) < unat p * unat (v_t v) + unat (v_t v)"
        by (simp_all add: algebra_simps)
      show ?thesis
        unfolding k using sz lt b(2) pp p1 f
        by (simp add: memcpy_def Let_def)
    qed
    have u: "(take (Suc (unat p)) b @ take 1 (drop (unat p) b) @ drop (Suc (Suc (unat p))) b)
        [unat p := Val x] = map Val ys @ Val x # Val y # rest"
      using ys bb by (rule shift_one)
    have l: "length (take (Suc (unat p)) b @ take 1 (drop (unat p) b) @ drop (Suc (Suc (unat p))) b)
        = length b"
      using lt b(2) pp by simp
    have "valid (v1\<lparr>v_data := Some (map Val ys @ Val x # Val y # rest), v_n := v_n v + 1\<rparr>)
        (take (unat p) xs @ [x] @ drop (unat p) xs)"
      using suc len b(2) bb xs ys pp by (simp add: valid_def holds_def block_def)
    with m u l g b lt pp n1 t1 e1 show ?thesis
      by (simp add: cvec_insert_def Let_def store_def)
  qed
qed

theorem insert_at_the_tail_witness:
  "valid roomy3 [1, 2, 3] \<and> growable roomy3 \<and> 2 \<le> v_n roomy3 \<and>
   unat (v_n roomy3) \<le> unat (2 :: size_t) + 1 \<and>
   (\<exists>v'. cvec_insert True roomy3 2 9 = Inr v' \<and> valid v' [1, 2, 9, 3] \<and> v_e v' = v_e roomy3)"
proof -
  have h: "valid roomy3 [1, 2, 3]" "growable roomy3" "2 \<le> v_n roomy3"
    "unat (v_n roomy3) \<le> unat (2 :: size_t) + 1"
    by (simp_all add: valid_def holds_def block_def growable_def roomy3_def)
  from insert_at_the_tail [OF h, of 9] h show ?thesis
    by simp
qed

section \<open>Pushing, popping and teardown on a vector in good order\<close>

text \<open>
  \<^verbatim>\<open>cvec_push_back\<close> with a successful allocation appends the item and leaves the vector
  in good order and the error field alone.
\<close>

theorem push_back_appends:
  assumes "valid v xs" and "growable v"
  shows "\<exists>v'. cvec_push_back True v x = Inr v' \<and> valid v' (xs @ [x]) \<and> v_e v' = v_e v"
proof (cases "v_n v = v_m v")
  case True
  let ?v1 = "v\<lparr>v_m := spec_grown_capacity (v_m v),
           v_data := realloc True (v_data v) (v_t v) (v_t v * spec_grown_capacity (v_m v))\<rparr>"
  from valid_after_growth [OF assms True] True
  have v1: "valid ?v1 xs" and lt: "v_n ?v1 < v_m ?v1" by simp_all
  from valid_store_end [OF v1 lt, of x] True show ?thesis
    by (auto simp: cvec_push_back_def maybe_grow_full)
next
  case False
  from valid_le [OF assms(1)] False have lt: "v_n v < v_m v"
    by simp
  from valid_store_end [OF assms(1) lt, of x] False show ?thesis
    by (auto simp: cvec_push_back_def maybe_grow_room)
qed

theorem push_back_appends_witness:
  "valid full3 [1, 2, 3] \<and> growable full3 \<and>
   (\<exists>v'. cvec_push_back True full3 4 = Inr v' \<and> valid v' [1, 2, 3, 4] \<and> v_e v' = v_e full3)"
proof -
  have h: "valid full3 [1, 2, 3]" "growable full3"
    by (simp_all add: valid_def holds_def block_def growable_def full3_def)
  from push_back_appends [OF h, of 4] h show ?thesis
    by simp
qed

text \<open>
  \<^verbatim>\<open>cvec_pop_back\<close> changes nothing on an empty vector; otherwise it calls the
  destructor, when set, once on the last element and drops that element.
\<close>

theorem pop_back_removes_last:
  "(v_n v = 0 \<longrightarrow> cvec_pop_back v = Inr (v, [])) \<and>
   (holds v xs \<and> xs \<noteq> [] \<longrightarrow>
      cvec_pop_back v = Inr (v\<lparr>v_n := v_n v - 1\<rparr>, if v_on_free v then [last xs] else []) \<and>
      holds (v\<lparr>v_n := v_n v - 1\<rparr>) (butlast xs))"
proof (intro conjI impI)
  show "cvec_pop_back v = Inr (v, [])" if "v_n v = 0"
    using that by (simp add: cvec_pop_back_def)
next
  assume a: "holds v xs \<and> xs \<noteq> []"
  then have h: "holds v xs" and ne: "xs \<noteq> []" by simp_all
  from h have n: "unat (v_n v) = length xs" and t: "take (length xs) (block v) = map Val xs"
    by (simp_all add: holds_def)
  from n ne have pos: "0 < v_n v"
    by (simp add: word_less_nat_alt)
  then have u: "unat (v_n v - 1) = length xs - 1"
    using n by (simp add: unat_minus_one word_greater_zero_iff)
  from pos holds_back [OF h ne]
  show "cvec_pop_back v = Inr (v\<lparr>v_n := v_n v - 1\<rparr>, if v_on_free v then [last xs] else [])"
    by (simp add: cvec_pop_back_def call_on_free_def)
  have "take (length xs - 1) (take (length xs) (block v)) = take (length xs - 1) (map Val xs)"
    using t by simp
  then have "take (length xs - 1) (block v) = map Val (butlast xs)"
    by (simp add: butlast_conv_take take_map)
  with u show "holds (v\<lparr>v_n := v_n v - 1\<rparr>) (butlast xs)"
    by (simp add: holds_def block_def)
qed

theorem pop_back_removes_last_witness:
  "v_n (cvec_init 4 (- 1 :: int) True) = 0 \<and>
   cvec_pop_back (cvec_init 4 (- 1 :: int) True) = Inr (cvec_init 4 (- 1) True, []) \<and>
   holds (cvec_set_on_free roomy3 True) [1, 2, 3] \<and>
   cvec_pop_back (cvec_set_on_free roomy3 True) = Inr (roomy3\<lparr>v_on_free := True, v_n := 2\<rparr>, [3]) \<and>
   holds (roomy3\<lparr>v_on_free := True, v_n := 2\<rparr>) [1, 2]"
proof -
  have h: "holds (cvec_set_on_free roomy3 True) [1, 2, 3]"
    "v_n (cvec_init 4 (- 1 :: int) True) = 0"
    by (simp_all add: holds_def block_def roomy3_def cvec_set_on_free_def cvec_init_def)
  from pop_back_removes_last [of "cvec_set_on_free roomy3 True" "[1, 2, 3]"]
    pop_back_removes_last [of "cvec_init 4 (- 1 :: int) True" "[]"] h
  show ?thesis
    by (simp add: cvec_set_on_free_def roomy3_def)
qed

text \<open>
  \<^verbatim>\<open>cvec_free\<close> calls the destructor, when set, once on every element in ascending
  order, and leaves the vector as after initialisation.
\<close>

theorem free_destroys_every_element_in_order:
  assumes "holds v xs"
  shows "cvec_free v =
     Inr (v\<lparr>v_data := None, v_n := 0, v_m := 0, v_e := CVEC_EOK\<rparr>, if v_on_free v then xs else [])"
proof (cases "v_on_free v \<and> v_data v \<noteq> None")
  case True
  have "destroy_loop (v_data v) 0 (v_n v) [] = Inr ([] @ drop (unat (0 :: size_t)) xs)"
    using assms by (rule destroy_loop_holds) simp_all
  with True show ?thesis
    by (simp add: cvec_free_def)
next
  case False
  have "xs = []" if "v_data v = None"
    using holds_length [OF assms] that by (simp add: block_def)
  with False show ?thesis
    by (auto simp: cvec_free_def)
qed

theorem free_destroys_every_element_in_order_witness:
  "holds (cvec_set_on_free roomy3 True) [1, 2, 3] \<and>
   cvec_free (cvec_set_on_free roomy3 True) =
     Inr (roomy3\<lparr>v_on_free := True, v_data := None, v_n := 0, v_m := 0\<rparr>, [1, 2, 3])"
proof -
  have h: "holds (cvec_set_on_free roomy3 True) [1, 2, 3]"
    by (simp add: holds_def block_def roomy3_def cvec_set_on_free_def)
  from free_destroys_every_element_in_order [OF h] h show ?thesis
    by (simp add: cvec_set_on_free_def roomy3_def)
qed

section \<open>Length and capacity\<close>

text \<open>
  C6, as amended. \<open>length \<le> capacity\<close> holds after initialisation, and every call that
  returns preserves it when the capacity is below \<open>2 ^ 63\<close> (so that doubling it does not
  wrap) and, for \<^verbatim>\<open>cvec_reserve\<close>, when the requested capacity is at least the length.
\<close>

theorem length_le_capacity_preserved:
  "v_n (cvec_init sz s f) \<le> v_m (cvec_init sz s f) \<and>
   (v_n v \<le> v_m v \<and> unat (v_m v) < 2 ^ 63 \<and> reserve_keeps_length c v \<and> run c v = Some v'
      \<longrightarrow> v_n v' \<le> v_m v')"
proof (intro conjI impI)
  show "v_n (cvec_init sz s f) \<le> v_m (cvec_init sz s f)"
    by (simp add: cvec_init_def)
next
  assume a: "v_n v \<le> v_m v \<and> unat (v_m v) < 2 ^ 63 \<and> reserve_keeps_length c v \<and> run c v = Some v'"
  then have inv: "v_n v \<le> v_m v" and small: "unat (v_m v) < 2 ^ 63"
    and fits: "reserve_keeps_length c v" and r: "run c v = Some v'"
    by simp_all
  show "v_n v' \<le> v_m v'"
  proof (cases "resets c")
    case True
    with r show ?thesis
      by (cases c) (auto simp: cvec_init_def cvec_free_def returned_with_def split: sum.splits)
  next
    case nr: False
    show ?thesis
    proof (cases "adds c")
      case True
      from True r show ?thesis
      proof (cases rule: run_adds_cases)
        case failed
        with grown_capacity_bounds(1) [OF small] show ?thesis by simp
      next
        case (grown d)
        with grown_capacity_bounds(2) [OF small] show ?thesis by simp
      next
        case (room d)
        with inv have "v_n v < v_m v" by simp
        then have "v_n v + 1 \<le> v_m v" by (rule inc_le)
        with room show ?thesis by simp
      qed
    next
      case False
      note o = run_others [OF False nr r]
      from o(1) inv have le: "v_n v' \<le> v_m v" by simp
      show ?thesis
      proof (cases c)
        case (Reserve ok k)
        with o fits show ?thesis by simp
      next
        case (Shrink_to_fit ok)
        with o le show ?thesis by (simp split: if_splits)
      qed (use o le in simp_all)
    qed
  qed
qed

theorem length_le_capacity_preserved_witness:
  "v_n full3 \<le> v_m full3 \<and> unat (v_m full3) < 2 ^ 63 \<and>
   reserve_keeps_length (Push_back True 4) full3 \<and>
   run (Push_back True 4) full3 =
     Some (full3\<lparr>v_n := 4, v_m := 7,
             v_data := Some [Val 1, Val 2, Val 3, Val 4, Junk, Junk, Junk]\<rparr>) \<and>
   v_n (full3\<lparr>v_n := 4, v_m := 7,
          v_data := Some [Val 1, Val 2, Val 3, Val 4, Junk, Junk, Junk]\<rparr>)
     \<le> v_m (full3\<lparr>v_n := 4, v_m := 7,
          v_data := Some [Val 1, Val 2, Val 3, Val 4, Junk, Junk, Junk]\<rparr>)"
proof -
  have r: "run (Push_back True 4) full3 =
     Some (full3\<lparr>v_n := 4, v_m := 7,
             v_data := Some [Val 1, Val 2, Val 3, Val 4, Junk, Junk, Junk]\<rparr>)"
    by code_simp
  have h: "v_n full3 \<le> v_m full3 \<and> unat (v_m full3) < 2 ^ 63 \<and>
      reserve_keeps_length (Push_back True 4) full3"
    by (simp add: full3_def)
  from length_le_capacity_preserved [of _ _ _ full3 "Push_back True 4"] h r show ?thesis
    by simp
qed

text \<open>
  C6 as stated, for a reserve of any size, fails: \<^verbatim>\<open>cvec_reserve(v, 1)\<close> on a vector of
  three elements sets the capacity to 1 and leaves the length at 3.
\<close>

theorem reserve_below_length_counterexample:
  "v_n full3 \<le> v_m full3 \<and>
   run (Reserve True 1) full3 = Some (full3\<lparr>v_data := Some [Val 1], v_m := 1\<rparr>) \<and>
   v_m (full3\<lparr>v_data := Some [Val 1], v_m := 1\<rparr>) < v_n (full3\<lparr>v_data := Some [Val 1], v_m := 1\<rparr>)"
  by (simp add: full3_def cvec_reserve_def realloc_def resize_def)

text \<open>
  The bound on the capacity is needed as well: at \<open>2 ^ 63\<close> the doubled capacity wraps
  to 0.
\<close>

lemma doubling_wraps_at_large_capacity:
  "run (Push_back False x)
     \<lparr>v_n = 2 ^ 63, v_m = 2 ^ 63, v_t = 1, v_data = None, v_on_free = False, v_e = CVEC_EOK,
      v_sentinel = s\<rparr> =
   Some \<lparr>v_n = 2 ^ 63, v_m = 1, v_t = 1, v_data = None, v_on_free = False, v_e = CVEC_EOOM,
      v_sentinel = s\<rparr>"
  by (simp add: returned_def cvec_push_back_def cvec_maybe_grow_def realloc_def Let_def)

section \<open>The error field\<close>

text \<open>
  C7, as amended. The error field is \<^verbatim>\<open>CVEC_EOK\<close> after initialisation and after
  teardown, a failing reallocation sets it to \<^verbatim>\<open>CVEC_EOOM\<close>, and every other call that
  returns leaves it as it was: a later successful allocation does not clear it, so
  once set it is reported until the vector is initialised again or torn down.
\<close>

theorem error_flag_is_sticky:
  "v_e (cvec_init sz s f) = CVEC_EOK \<and>
   (run c v = Some v' \<longrightarrow>
      v_e v' = (if resets c then CVEC_EOK else if failed_realloc c v then CVEC_EOOM else v_e v) \<and>
      (v_e v = CVEC_EOOM \<and> \<not> resets c \<longrightarrow> cvec_had_error v'))"
proof (intro conjI impI)
  show "v_e (cvec_init sz s f) = CVEC_EOK"
    by (simp add: cvec_init_def)
next
  assume r: "run c v = Some v'"
  show e: "v_e v' = (if resets c then CVEC_EOK else if failed_realloc c v then CVEC_EOOM else v_e v)"
  proof (cases "resets c")
    case True
    with r show ?thesis
      by (cases c) (auto simp: cvec_init_def cvec_free_def returned_with_def split: sum.splits)
  next
    case nr: False
    show ?thesis
    proof (cases "adds c")
      case True
      from True r have "v_e v' = (if failed_realloc c v then CVEC_EOOM else v_e v)"
        by (cases rule: run_adds_cases) simp_all
      with nr show ?thesis by simp
    next
      case False
      from run_others(2) [OF False nr r] nr show ?thesis by simp
    qed
  qed
  assume "v_e v = CVEC_EOOM \<and> \<not> resets c"
  with e show "cvec_had_error v'"
    by (simp add: cvec_had_error_def CVEC_EOOM_def CVEC_EOK_def)
qed

theorem error_flag_is_sticky_witness:
  "run (Reserve True 5) (cvec_reserve False (cvec_init 4 (- 1 :: int) False) 5) =
     Some (cvec_reserve True (cvec_reserve False (cvec_init 4 (- 1) False) 5) 5) \<and>
   v_e (cvec_reserve False (cvec_init 4 (- 1 :: int) False) 5) = CVEC_EOOM \<and>
   \<not> resets (Reserve True 5 :: int call) \<and>
   v_e (cvec_reserve True (cvec_reserve False (cvec_init 4 (- 1 :: int) False) 5) 5) =
     CVEC_EOOM \<and>
   cvec_had_error (cvec_reserve True (cvec_reserve False (cvec_init 4 (- 1 :: int) False) 5) 5)"
proof -
  have r: "run (Reserve True 5) (cvec_reserve False (cvec_init 4 (- 1 :: int) False) 5) =
     Some (cvec_reserve True (cvec_reserve False (cvec_init 4 (- 1) False) 5) 5)"
    by simp
  have e: "v_e (cvec_reserve False (cvec_init 4 (- 1 :: int) False) 5) = CVEC_EOOM"
    by (simp add: cvec_reserve_def cvec_init_def realloc_def)
  from error_flag_is_sticky [of 4 "- 1 :: int" False "Reserve True 5"
      "cvec_reserve False (cvec_init 4 (- 1 :: int) False) 5"
      "cvec_reserve True (cvec_reserve False (cvec_init 4 (- 1) False) 5) 5"] r e
  show ?thesis by simp
qed

text \<open>
  C7 as stated fails: after a failed \<^verbatim>\<open>cvec_reserve\<close>, a successful one leaves the error
  field at \<^verbatim>\<open>CVEC_EOOM\<close> and \<^verbatim>\<open>cvec_had_error\<close> still reports an error.
\<close>

theorem error_survives_successful_allocation_counterexample:
  "run_all [Reserve False 5, Reserve True 5] (cvec_init 4 (- 1 :: int) False) =
     Some \<lparr>v_n = 0, v_m = 5, v_t = 4, v_data = Some [Junk, Junk, Junk, Junk, Junk],
           v_on_free = False, v_e = CVEC_EOOM, v_sentinel = - 1\<rparr> \<and>
   cvec_had_error \<lparr>v_n = 0, v_m = 5, v_t = 4, v_data = Some [Junk, Junk, Junk, Junk, Junk],
           v_on_free = False, v_e = CVEC_EOOM, v_sentinel = - 1 :: int\<rparr>"
  by code_simp

section \<open>The growth policy\<close>

text \<open>
  C8. A full vector grows to one slot more than its target, the target being 2 for
  capacity 0 and twice the capacity otherwise (exactly so as numbers when the capacity is
  below \<open>2 ^ 63\<close>); a vector that is not full is left alone by \<^verbatim>\<open>__cvec_maybe_grow\<close>
  whatever the allocator would answer; and an adding call that returns has the grown
  capacity when the vector was full and the old capacity otherwise.
\<close>

theorem growth_policy:
  "(v_n v = v_m v \<longrightarrow>
      cvec_maybe_grow True v =
        Continue (v\<lparr>v_m := spec_grown_capacity (v_m v),
          v_data := realloc True (v_data v) (v_t v) (v_t v * spec_grown_capacity (v_m v))\<rparr>) \<and>
      (unat (v_m v) < 2 ^ 63 \<longrightarrow>
         unat (spec_grown_capacity (v_m v)) = (if unat (v_m v) = 0 then 2 else 2 * unat (v_m v)) + 1)) \<and>
   (v_n v \<noteq> v_m v \<longrightarrow> cvec_maybe_grow ok v = Continue v) \<and>
   (adds c \<and> run c v = Some v' \<longrightarrow>
      v_m v' = (if v_n v = v_m v then spec_grown_capacity (v_m v) else v_m v))"
proof (intro conjI impI)
  assume "v_n v = v_m v"
  then show "cvec_maybe_grow True v =
        Continue (v\<lparr>v_m := spec_grown_capacity (v_m v),
          v_data := realloc True (v_data v) (v_t v) (v_t v * spec_grown_capacity (v_m v))\<rparr>)"
    by (simp add: maybe_grow_full)
next
  assume "unat (v_m v) < 2 ^ 63"
  then show "unat (spec_grown_capacity (v_m v)) = (if unat (v_m v) = 0 then 2 else 2 * unat (v_m v)) + 1"
    by (rule unat_spec_grown_capacity)
next
  assume "v_n v \<noteq> v_m v"
  then show "cvec_maybe_grow ok v = Continue v"
    by (rule maybe_grow_room)
next
  assume "adds c \<and> run c v = Some v'"
  then have "adds c" and "run c v = Some v'" by simp_all
  then show "v_m v' = (if v_n v = v_m v then spec_grown_capacity (v_m v) else v_m v)"
    by (cases rule: run_adds_cases) simp_all
qed

theorem growth_policy_witness:
  "v_n full3 = v_m full3 \<and> unat (v_m full3) < 2 ^ 63 \<and>
   cvec_maybe_grow True full3 =
     Continue (full3\<lparr>v_m := 7, v_data := Some [Val 1, Val 2, Val 3, Junk, Junk, Junk, Junk]\<rparr>) \<and>
   unat (spec_grown_capacity (v_m full3)) = 7 \<and>
   adds (Push_back True 4 :: int call) \<and>
   run (Push_back True 4) full3 =
     Some (full3\<lparr>v_n := 4, v_m := 7,
             v_data := Some [Val 1, Val 2, Val 3, Val 4, Junk, Junk, Junk]\<rparr>) \<and>
   v_n roomy3 \<noteq> v_m roomy3 \<and>
   cvec_maybe_grow False roomy3 = Continue roomy3 \<and>
   run (Push_back False 4) roomy3 =
     Some (roomy3\<lparr>v_n := 4, v_data := Some [Val 1, Val 2, Val 3, Val 4, Junk, Junk, Junk]\<rparr>) \<and>
   v_m (roomy3\<lparr>v_n := 4, v_data := Some [Val 1, Val 2, Val 3, Val 4, Junk, Junk, Junk]\<rparr>) =
     v_m roomy3"
proof -
  have r1: "run (Push_back True 4) full3 =
     Some (full3\<lparr>v_n := 4, v_m := 7,
             v_data := Some [Val 1, Val 2, Val 3, Val 4, Junk, Junk, Junk]\<rparr>)"
    by code_simp
  have r2: "run (Push_back False 4) roomy3 =
     Some (roomy3\<lparr>v_n := 4, v_data := Some [Val 1, Val 2, Val 3, Val 4, Junk, Junk, Junk]\<rparr>)"
    by code_simp
  have g: "realloc True (v_data full3) (v_t full3) (v_t full3 * spec_grown_capacity (v_m full3)) =
      Some [Val 1, Val 2, Val 3, Junk, Junk, Junk, Junk]"
    by code_simp
  have h: "v_n full3 = v_m full3" "unat (v_m full3) < 2 ^ 63" "v_n roomy3 \<noteq> v_m roomy3"
    "spec_grown_capacity (v_m full3) = 7"
    by (simp_all add: full3_def roomy3_def spec_grown_capacity_def)
  from growth_policy [of full3 True "Push_back True 4"
      "full3\<lparr>v_n := 4, v_m := 7, v_data := Some [Val 1, Val 2, Val 3, Val 4, Junk, Junk, Junk]\<rparr>"]
    growth_policy [of roomy3 False "Push_back False 4"
      "roomy3\<lparr>v_n := 4, v_data := Some [Val 1, Val 2, Val 3, Val 4, Junk, Junk, Junk]\<rparr>"]
    r1 r2 g h
  show ?thesis by simp
qed

section \<open>Guarded access\<close>

text \<open>
  C9. \<^verbatim>\<open>cvec_at(v, i)\<close> is \<^verbatim>\<open>cvec_get(v, i)\<close> when \<open>i\<close> is below the length and the
  sentinel otherwise; \<^verbatim>\<open>cvec_front\<close> and \<^verbatim>\<open>cvec_back\<close> are the sentinel on an empty
  vector. On a vector that holds the elements \<open>xs\<close> these are the element at index \<open>i\<close>,
  the first and the last element.
\<close>

theorem guarded_access:
  "(i < v_n v \<longrightarrow> cvec_at v i = cvec_get v i) \<and>
   (v_n v \<le> i \<longrightarrow> cvec_at v i = Inr (v_sentinel v)) \<and>
   (v_n v = 0 \<longrightarrow> cvec_front v = Inr (v_sentinel v) \<and> cvec_back v = Inr (v_sentinel v)) \<and>
   (holds v xs \<longrightarrow>
      cvec_at v i = Inr (if i < v_n v then xs ! unat i else v_sentinel v) \<and>
      cvec_front v = Inr (if xs = [] then v_sentinel v else hd xs) \<and>
      cvec_back v = Inr (if xs = [] then v_sentinel v else last xs))"
proof (intro conjI impI)
  show "cvec_at v i = cvec_get v i" if "i < v_n v"
    using that by (simp add: cvec_at_def cvec_get_def)
  show "cvec_at v i = Inr (v_sentinel v)" if "v_n v \<le> i"
    using that by (auto simp: cvec_at_def)
  show "cvec_front v = Inr (v_sentinel v)" if "v_n v = 0"
    using that by (simp add: cvec_front_def)
  show "cvec_back v = Inr (v_sentinel v)" if "v_n v = 0"
    using that by (simp add: cvec_back_def)
next
  assume h: "holds v xs"
  then have n: "unat (v_n v) = length xs"
    by (simp add: holds_def)
  show "cvec_at v i = Inr (if i < v_n v then xs ! unat i else v_sentinel v)"
  proof (cases "i < v_n v")
    case True
    then have "unat i < length xs"
      using n by (simp add: word_less_nat_alt)
    with h True show ?thesis
      by (simp add: cvec_at_def holds_load)
  next
    case False
    then show ?thesis by (simp add: cvec_at_def)
  qed
  show "cvec_front v = Inr (if xs = [] then v_sentinel v else hd xs)"
  proof (cases xs)
    case Nil
    with n show ?thesis
      by (simp add: cvec_front_def unat_eq_0)
  next
    case (Cons x ys)
    with n have "0 < v_n v"
      by (simp add: word_less_nat_alt)
    moreover from Cons have "load (v_data v) 0 = Inr (xs ! unat (0 :: size_t))"
      by (intro holds_load [OF h]) simp
    ultimately show ?thesis
      using Cons by (simp add: cvec_front_def)
  qed
  show "cvec_back v = Inr (if xs = [] then v_sentinel v else last xs)"
  proof (cases "xs = []")
    case True
    with n show ?thesis
      by (simp add: cvec_back_def unat_eq_0)
  next
    case False
    with n have pos: "0 < v_n v"
      by (simp add: word_less_nat_alt)
    then have u: "unat (v_n v - 1) = length xs - 1"
      using n by (simp add: unat_minus_one word_greater_zero_iff)
    with False have "unat (v_n v - 1) < length xs"
      by simp
    then have "load (v_data v) (v_n v - 1) = Inr (xs ! unat (v_n v - 1))"
      by (rule holds_load [OF h])
    with u False pos show ?thesis
      by (simp add: cvec_back_def last_conv_nth)
  qed
qed

theorem guarded_access_witness:
  "holds roomy3 [1, 2, 3] \<and> (1 :: size_t) < v_n roomy3 \<and> v_n roomy3 \<le> 200 \<and>
   cvec_at roomy3 1 = Inr 2 \<and> cvec_get roomy3 1 = Inr 2 \<and>
   cvec_at roomy3 200 = Inr (- 1) \<and>
   cvec_front roomy3 = Inr 1 \<and> cvec_back roomy3 = Inr 3 \<and>
   v_n (cvec_init 4 (- 1 :: int) False) = 0 \<and>
   cvec_front (cvec_init 4 (- 1 :: int) False) = Inr (- 1) \<and>
   cvec_back (cvec_init 4 (- 1 :: int) False) = Inr (- 1)"
proof -
  have h: "holds roomy3 [1, 2, 3]" "(1 :: size_t) < v_n roomy3" "v_n roomy3 \<le> 200"
    "v_sentinel roomy3 = - 1" "v_n (cvec_init 4 (- 1 :: int) False) = 0"
    "v_sentinel (cvec_init 4 (- 1 :: int) False) = - 1"
    by (simp_all add: holds_def block_def roomy3_def cvec_init_def)
  have g: "cvec_get roomy3 1 = Inr 2"
    by (simp add: cvec_get_def load_def roomy3_def)
  from guarded_access [of 1 roomy3 "[1, 2, 3]"] guarded_access [of 200 roomy3 "[1, 2, 3]"]
    guarded_access [of 0 "cvec_init 4 (- 1 :: int) False" "[]"] h g
  show ?thesis by simp
qed

section \<open>Insertion at the end\<close>

text \<open>
  C10. Inserting at position \<open>size\<close> is pushing at the back: the same growth decision, and
  the same resulting length, capacity, elements and error state (or the same undefined
  behaviour), for every vector state, allocator outcome and item.
\<close>

theorem cvec_insert_at_size_is_push_back:
  "cvec_insert ok v (cvec_size v) item = cvec_push_back ok v item"
proof (cases "cvec_maybe_grow ok v")
  case (Break v1)
  then show ?thesis
    by (simp add: cvec_insert_def cvec_push_back_def Let_def)
next
  case (Continue v1)
  have n1: "v_n v1 = v_n v"
    using Continue by (auto simp: cvec_maybe_grow_def Let_def split: if_splits)
  show ?thesis
  proof (cases "v_data v1")
    case None
    then show ?thesis
      using Continue by (simp add: cvec_insert_def cvec_push_back_def cvec_size_def memcpy_def store_def Let_def)
  next
    case (Some b)
    show ?thesis
    proof (cases "unat (v_n v) < length b")
      case True
      then have "unat (v_n v + 1) \<le> length b"
        using unat_succ_le [of "v_n v"] by linarith
      with True show ?thesis
        using Continue Some n1
        by (simp add: cvec_insert_def cvec_push_back_def cvec_size_def memcpy_nothing store_def Let_def)
    next
      case False
      then show ?thesis
        using Continue Some n1
        by (simp add: cvec_insert_def cvec_push_back_def cvec_size_def memcpy_nothing store_def Let_def)
    qed
  qed
qed

end
